theory Spec2Isabelle
  imports Main "HOL-Library.AList"
begin

section \<open>Strings and objects of the host language\<close>

text \<open>
  The node is TypeScript. A string is modelled as a list of characters, each \<^typ>\<open>char\<close>
  standing for one code unit below 256 (the Latin-1 range), which is where every separator,
  quote and header name the code looks for lives. The built-in string methods used by the
  node are written out below with the behaviour the language gives them.
\<close>

definition isWhiteSpace :: "char \<Rightarrow> bool" where
  \<comment> \<open>what \<open>String.prototype.trim\<close> removes, within the modelled range:
      TAB, LF, VT, FF, CR, space and the no-break space\<close>
  "isWhiteSpace c \<longleftrightarrow> c \<in> set [CHR 0x09, CHR 0x0A, CHR 0x0B, CHR 0x0C, CHR 0x0D, CHR 0x20, CHR 0xA0]"

definition trim :: "string \<Rightarrow> string" where
  "trim s = rev (dropWhile isWhiteSpace (rev (dropWhile isWhiteSpace s)))"

fun split_str :: "char \<Rightarrow> string \<Rightarrow> string list" where
  \<comment> \<open>\<open>s.split(c)\<close> for a one-character separator; the empty string gives one empty piece\<close>
  "split_str c [] = [[]]"
| "split_str c (x # xs) =
     (if x = c then [] # split_str c xs
      else (case split_str c xs of
              [] \<Rightarrow> [[x]]
            | y # ys \<Rightarrow> (x # y) # ys))"

fun indexOf :: "char \<Rightarrow> string \<Rightarrow> int" where
  \<comment> \<open>\<open>s.indexOf(c)\<close>: the position of the first occurrence, or \<open>-1\<close>\<close>
  "indexOf c [] = - 1"
| "indexOf c (x # xs) =
     (if x = c then 0
      else (let r = indexOf c xs in if r = - 1 then - 1 else r + 1))"

definition relativeIndex :: "int \<Rightarrow> nat \<Rightarrow> nat" where
  \<comment> \<open>how \<open>slice\<close> reads a bound: a negative one counts from the end, all are clamped\<close>
  "relativeIndex i len = (if i < 0 then nat (max (int len + i) 0) else min (nat i) len)"

definition slice :: "string \<Rightarrow> int \<Rightarrow> int \<Rightarrow> string" where
  \<comment> \<open>\<open>s.slice(b, e)\<close>\<close>
  "slice s b e =
     (let from = relativeIndex b (length s); to = relativeIndex e (length s)
      in take (to - from) (drop from s))"

definition sliceFrom :: "string \<Rightarrow> int \<Rightarrow> string" where
  \<comment> \<open>\<open>s.slice(b)\<close>\<close>
  "sliceFrom s b = slice s b (int (length s))"

definition includes_chr :: "string \<Rightarrow> char \<Rightarrow> bool" where
  "includes_chr s c \<longleftrightarrow> c \<in> set s"

definition startsWith :: "string \<Rightarrow> char \<Rightarrow> bool" where
  "startsWith s c = (case s of [] \<Rightarrow> False | x # _ \<Rightarrow> x = c)"

definition removeQuotes :: "string \<Rightarrow> string" where
  \<comment> \<open>\<open>key.replace(/['"]/g, '')\<close>\<close>
  "removeQuotes s = filter (\<lambda>c. c \<noteq> CHR 0x27 \<and> c \<noteq> CHR 0x22) s"

definition lowerChar :: "char \<Rightarrow> char" where
  \<comment> \<open>lower-casing of one code unit of the modelled range: A-Z and the accented capitals
      0xC0-0xDE (the multiplication sign 0xD7 apart) move up by 0x20\<close>
  "lowerChar c =
     (let n = (of_char c :: nat)
      in if (65 \<le> n \<and> n \<le> 90) \<or> (192 \<le> n \<and> n \<le> 222 \<and> n \<noteq> 215)
         then char_of (n + 32) else c)"

definition toLowerCase :: "string \<Rightarrow> string" where
  "toLowerCase s = map lowerChar s"

fun join :: "string \<Rightarrow> string list \<Rightarrow> string" where
  \<comment> \<open>\<open>xs.join(sep)\<close>\<close>
  "join sep [] = []"
| "join sep [x] = x"
| "join sep (x # y # ys) = x @ sep @ join sep (y # ys)"

text \<open>
  A \<open>Record<string, string>\<close> is a plain object. It is modelled as the list of its own
  properties in the order the language enumerates them: the keys that are array indices
  first, in ascending numeric order, then the other keys in the order they were created.
  \<open>Object.keys(obj)\<close> is \<open>map fst\<close>, \<open>obj[k]\<close> is \<^const>\<open>map_of\<close>, \<open>delete obj[k]\<close> is
  \<^const>\<open>AList.delete\<close>, and a copy \<open>{ ...obj }\<close> has the same list.

  A property is written in two ways. An object literal with a spread defines it
  (\<open>defineProperty\<close>): the value changes in place for a key already there, a new key
  is put at its place in the enumeration order. An assignment \<open>obj[k] = v\<close> and
  \<open>Object.assign\<close> set it (\<open>setProperty\<close>), which is the same but for the key
  \<open>__proto__\<close>: on an object that has no own property of that name the assignment
  reaches the accessor of \<open>Object.prototype\<close>, which ignores a string, and no property
  is created.
\<close>

type_synonym jsrecord = "(string \<times> string) list"

definition keys :: "jsrecord \<Rightarrow> string list" where
  "keys obj = map fst obj"

definition isDigit :: "char \<Rightarrow> bool" where
  "isDigit c \<longleftrightarrow> 48 \<le> (of_char c :: nat) \<and> (of_char c :: nat) \<le> 57"

definition digitsValue :: "string \<Rightarrow> nat" where
  "digitsValue s = foldl (\<lambda>n c. 10 * n + ((of_char c :: nat) - 48)) 0 s"

definition isArrayIndex :: "string \<Rightarrow> bool" where
  \<comment> \<open>a canonical numeric string below \<open>2^32 - 1\<close>\<close>
  "isArrayIndex k \<longleftrightarrow>
     k \<noteq> [] \<and> list_all isDigit k \<and> (k = ''0'' \<or> take 1 k \<noteq> ''0'')
     \<and> length k \<le> 10 \<and> digitsValue k < 4294967295"

fun insertIndexKey :: "string \<Rightarrow> string \<Rightarrow> jsrecord \<Rightarrow> jsrecord" where
  \<comment> \<open>a new array-index key goes after the smaller array indices and before all else\<close>
  "insertIndexKey k v [] = [(k, v)]"
| "insertIndexKey k v ((k', v') # rest) =
     (if isArrayIndex k' \<and> digitsValue k' < digitsValue k
      then (k', v') # insertIndexKey k v rest
      else (k, v) # (k', v') # rest)"

definition defineProperty :: "string \<Rightarrow> string \<Rightarrow> jsrecord \<Rightarrow> jsrecord" where
  "defineProperty k v obj =
     (if k \<in> set (keys obj) then AList.update k v obj
      else if isArrayIndex k then insertIndexKey k v obj
      else obj @ [(k, v)])"

definition setProperty :: "string \<Rightarrow> string \<Rightarrow> jsrecord \<Rightarrow> jsrecord" where
  "setProperty k v obj =
     (if k = ''__proto__'' \<and> k \<notin> set (keys obj) then obj else defineProperty k v obj)"

definition assign :: "jsrecord \<Rightarrow> jsrecord \<Rightarrow> jsrecord" where
  \<comment> \<open>\<open>Object.assign(target, source)\<close>: every entry of the source is set on the target\<close>
  "assign target source = fold (\<lambda>(k, v) acc. setProperty k v acc) source target"

definition spread :: "jsrecord \<Rightarrow> jsrecord \<Rightarrow> jsrecord" where
  \<comment> \<open>\<open>{ ...a, ...b }\<close>: the properties of \<open>a\<close>, then those of \<open>b\<close> defined on top\<close>
  "spread a b = fold (\<lambda>(k, v) acc. defineProperty k v acc) b a"

section \<open>The cookie normalizer\<close>

text \<open>
  The raw cookie grammar occurs twice in \<open>execute\<close>, word for word: once for the
  \<open>rawCookieString\<close> parameter and once inside \<open>processHeaders\<close> for the value of a
  \<open>Cookie\<close> header. \<open>cookieReducer\<close> is the callback given to \<open>reduce\<close>.
\<close>

definition cookieReducer :: "jsrecord \<Rightarrow> string \<Rightarrow> jsrecord" where
  "cookieReducer acc current =
     (let separatorIndex = indexOf (CHR ''='') current
      in if separatorIndex = - 1 then acc
         else (let key = slice current 0 separatorIndex;
                   val = sliceFrom current (separatorIndex + 1)
               in setProperty key val acc))"

definition parseRawCookies :: "string \<Rightarrow> jsrecord" where
  "parseRawCookies raw =
     foldl cookieReducer []
       (filter (\<lambda>c. c \<noteq> []) (map trim (split_str (CHR '';'') raw)))"

definition cookiesFromRawString :: "string \<Rightarrow> jsrecord" where
  \<comment> \<open>the \<open>cookieInputType\<close> branch for a raw string: \<open>cookiesObj\<close> stays \<open>{}\<close> for an empty one\<close>
  "cookiesFromRawString rawString = (if rawString \<noteq> [] then parseRawCookies rawString else [])"

text \<open>
  The grammar in the words of the specification: split on \<open>;\<close>, trim each segment, drop
  the empty segments and those without \<open>=\<close>, and pair the text before the first \<open>=\<close>
  with the text after it. \<open>settable\<close> keeps the pairs an assignment makes a property of.
\<close>

definition settable :: "(string \<times> string) list \<Rightarrow> (string \<times> string) list" where
  "settable ps = filter (\<lambda>(k, v). k \<noteq> ''__proto__'') ps"

definition cookie_pair :: "string \<Rightarrow> string \<times> string" where
  "cookie_pair seg =
     (takeWhile (\<lambda>c. c \<noteq> CHR ''='') seg, tl (dropWhile (\<lambda>c. c \<noteq> CHR ''='') seg))"

definition cookie_pairs_spec :: "string \<Rightarrow> (string \<times> string) list" where
  "cookie_pairs_spec raw =
     map cookie_pair
       (filter (\<lambda>seg. CHR ''='' \<in> set seg)
          (filter (\<lambda>seg. seg \<noteq> []) (map trim (split_str (CHR '';'') raw))))"

section \<open>The header and cookie reconciler\<close>

text \<open>
  \<open>processHeaders(headers, cookies)\<close> copies \<open>headers\<close>, returns the copy after its
  deletions, and writes the cookies it finds into the object \<open>cookies\<close> it was given.
  The model returns both: the returned header object and the cookie object as the call
  leaves it.
\<close>

record reconciled =
  processedHeaders :: jsrecord
  cookiesAfter :: jsrecord

definition processHeaders :: "jsrecord \<Rightarrow> jsrecord \<Rightarrow> reconciled" where
  "processHeaders headers cookies =
     (let processedHeaders = headers;
          cookieKey = find (\<lambda>k. toLowerCase k = ''cookie'') (keys processedHeaders);
          (processedHeaders, cookies) =
            (case cookieKey of
               None \<Rightarrow> (processedHeaders, cookies)
             | Some ck \<Rightarrow>
                 (let rawCookie = the (map_of processedHeaders ck);
                      extractedCookies = parseRawCookies rawCookie
                  in (AList.delete ck processedHeaders, assign cookies extractedCookies)));
          encodingKey = find (\<lambda>k. toLowerCase k = ''accept-encoding'') (keys processedHeaders);
          processedHeaders =
            (case encodingKey of
               None \<Rightarrow> processedHeaders
             | Some ek \<Rightarrow> AList.delete ek processedHeaders)
      in \<lparr>processedHeaders = processedHeaders, cookiesAfter = cookies\<rparr>)"


section \<open>The header normalizer\<close>

definition colonLine :: "jsrecord \<Rightarrow> string \<Rightarrow> jsrecord" where
  \<comment> \<open>the body of the loop of strategy 1 (\<open>Key: Value\<close> lines)\<close>
  "colonLine headers line =
     (let separatorIndex = indexOf (CHR '':'') line
      in if separatorIndex = - 1 then headers
         else (let key = trim (slice line 0 separatorIndex);
                   val = trim (sliceFrom line (separatorIndex + 1));
                   key = removeQuotes key
               in if includes_chr key (CHR '' '') then headers
                  else if startsWith key (CHR '':'') \<or> key = [] then headers
                  else setProperty key val headers))"

function alternatingLines :: "string list \<Rightarrow> nat \<Rightarrow> jsrecord \<Rightarrow> jsrecord" where
  \<comment> \<open>the loop of strategy 2: \<open>for (let i = 0; i < lines.length; i += 2)\<close>\<close>
  "alternatingLines lines i headers =
     (if i < length lines then
        (if i + 1 \<ge> length lines then headers
         else (let key = trim (lines ! i);
                   val = trim (lines ! (i + 1));
                   key = removeQuotes key
               in if includes_chr key (CHR '' '') \<or> startsWith key (CHR '':'') \<or> key = []
                  then alternatingLines lines (i + 2) headers
                  else alternatingLines lines (i + 2) (setProperty key val headers)))
      else headers)"
  by pat_completeness auto
termination
  by (relation "measure (\<lambda>(lines, i, headers). length lines - i)") auto

declare alternatingLines.simps [simp del]

definition headerLines :: "string \<Rightarrow> string list" where
  \<comment> \<open>\<open>raw.split('\n').map(l => l.trim()).filter(l => l)\<close>\<close>
  "headerLines raw = filter (\<lambda>l. l \<noteq> []) (map trim (split_str (CHR 0x0A) raw))"

definition parseRawHeaders :: "string \<Rightarrow> jsrecord" where
  "parseRawHeaders raw =
     (let lines = headerLines raw;
          headers = [];
          hasColons = list_ex (\<lambda>l. includes_chr l (CHR '':'')) lines
      in if hasColons then foldl colonLine headers lines
         else alternatingLines lines 0 headers)"

text \<open>
  The two grammars in the words of the specification. A key is discarded when it contains
  a space, is empty or starts with a colon. The colon form keeps, for every line with a
  colon, the text left of the first colon (trimmed, quotes stripped) and the text right of
  it (trimmed); the alternating form reads the lines two by two and drops a last line that
  has no partner. Where a key occurs twice the later entry counts, which is what
  \<^const>\<open>map_of\<close> of the reversed list gives.
\<close>

definition key_discarded :: "string \<Rightarrow> bool" where
  "key_discarded key \<longleftrightarrow> CHR '' '' \<in> set key \<or> key = [] \<or> take 1 key = '':''"

definition colon_entries_spec :: "string list \<Rightarrow> (string \<times> string) list" where
  "colon_entries_spec lines =
     filter (\<lambda>(k, v). \<not> key_discarded k)
       (map (\<lambda>line. (removeQuotes (trim (takeWhile (\<lambda>c. c \<noteq> CHR '':'') line)),
                      trim (tl (dropWhile (\<lambda>c. c \<noteq> CHR '':'') line))))
          (filter (\<lambda>line. CHR '':'' \<in> set line) lines))"

fun line_pairs :: "string list \<Rightarrow> (string \<times> string) list" where
  "line_pairs (k # v # rest) = (k, v) # line_pairs rest"
| "line_pairs _ = []"

definition alternating_entries_spec :: "string list \<Rightarrow> (string \<times> string) list" where
  "alternating_entries_spec lines =
     filter (\<lambda>(k, v). \<not> key_discarded k)
       (map (\<lambda>(k, v). (removeQuotes (trim k), trim v)) (line_pairs lines))"

definition blank :: "string \<Rightarrow> bool" where
  \<comment> \<open>white space that stays inside one line\<close>
  "blank w \<longleftrightarrow> (\<forall>c\<in>set w. isWhiteSpace c \<and> c \<noteq> CHR 0x0A)"

definition quotes :: "string \<Rightarrow> bool" where
  "quotes q \<longleftrightarrow> (\<forall>c\<in>set q. c = CHR 0x27 \<or> c = CHR 0x22)"

section \<open>Link extraction\<close>

text \<open>
  \<open>new URL(href, base).href\<close> belongs to the platform; it is a parameter \<open>newURL\<close>
  that returns \<open>None\<close> where the constructor throws. \<open>[...new Set(xs)]\<close> keeps the
  first occurrence of every element, in order.
\<close>

definition collectLinks :: "(string \<Rightarrow> string \<Rightarrow> string option) \<Rightarrow> string \<Rightarrow> string list \<Rightarrow> string list" where
  \<comment> \<open>the loop over the \<open>a[href]\<close> elements in the request handler, same on both paths\<close>
  "collectLinks newURL requestUrl hrefs =
     foldl (\<lambda>links href.
              if href \<noteq> [] then
                (case newURL href requestUrl of
                   Some u \<Rightarrow> links @ [u]
                 | None \<Rightarrow> links)
              else links) [] hrefs"

definition setInOrder :: "'a list \<Rightarrow> 'a list" where
  \<comment> \<open>\<open>[...new Set(xs)]\<close>\<close>
  "setInOrder xs = foldl (\<lambda>acc x. if x \<in> set acc then acc else acc @ [x]) [] xs"

fun first_occurrences :: "'a list \<Rightarrow> 'a list" where
  \<comment> \<open>in the words of the specification: unique, ordered by first occurrence\<close>
  "first_occurrences [] = []"
| "first_occurrences (x # xs) = x # first_occurrences (filter (\<lambda>y. y \<noteq> x) xs)"


section \<open>The fetch dispatcher\<close>

text \<open>
  The crawlers, the browser page and the workflow host are collaborators of the node, not
  part of it. What the node does to them is modelled; what they answer is a parameter.
  A browser page is the record of what the pre-navigation hook has installed on it.
  The one init script the node installs is
  \<open>(ua) => { Object.defineProperty(navigator, 'userAgent', { get: () => ua }); }\<close>;
  \<open>DefineNavigatorUserAgent ua\<close> is that script with the argument it is installed with.
\<close>

datatype init_script = DefineNavigatorUserAgent string

record page_session =
  extraHTTPHeaders :: "jsrecord option"
  initScripts :: "init_script list"
  viewportSize :: "(nat \<times> nat) option"
  contextCookies :: "(string \<times> string \<times> string) list"

definition newPage :: page_session where
  "newPage = \<lparr>extraHTTPHeaders = None, initScripts = [], viewportSize = None, contextCookies = []\<rparr>"

definition browserPreNavigationHook ::
  "jsrecord \<Rightarrow> jsrecord \<Rightarrow> string \<Rightarrow> page_session \<Rightarrow> page_session \<times> jsrecord" where
  \<comment> \<open>the hook of the three browser crawlers (the three copies differ in a type cast only);
      returns the page and \<open>cookiesObj\<close> as the hook leaves them\<close>
  "browserPreNavigationHook jsonHeaders cookiesObj originalUrl pg =
     (let r = processHeaders jsonHeaders cookiesObj;
          saneHeaders = processedHeaders r;
          cookiesObj = cookiesAfter r;
          pg = (if length (keys saneHeaders) > 0 then
                  (let pg = pg\<lparr>extraHTTPHeaders := Some saneHeaders\<rparr>;
                       uaKey = find (\<lambda>k. toLowerCase k = ''user-agent'') (keys saneHeaders)
                   in case uaKey of
                        None \<Rightarrow> pg
                      | Some uk \<Rightarrow>
                          (let userAgent = the (map_of saneHeaders uk)
                           in pg\<lparr>initScripts := initScripts pg @ [DefineNavigatorUserAgent userAgent]\<rparr>))
                else pg);
          pg = pg\<lparr>viewportSize := Some (1920, 1080)\<rparr>;
          pg = (if length (keys cookiesObj) > 0 then
                  pg\<lparr>contextCookies := contextCookies pg @
                        map (\<lambda>(name, val). (name, val, originalUrl)) cookiesObj\<rparr>
                else pg)
      in (pg, cookiesObj))"

definition staticPreNavigationHook ::
  "jsrecord \<Rightarrow> jsrecord \<Rightarrow> jsrecord \<Rightarrow> jsrecord \<times> jsrecord" where
  \<comment> \<open>the hook of the three static crawlers; returns \<open>request.headers\<close> and \<open>cookiesObj\<close>\<close>
  "staticPreNavigationHook jsonHeaders cookiesObj requestHeaders =
     (let r = processHeaders jsonHeaders cookiesObj;
          saneHeaders = processedHeaders r;
          cookiesObj = cookiesAfter r;
          requestHeaders = (if length (keys saneHeaders) > 0
                            then spread requestHeaders saneHeaders else requestHeaders);
          requestHeaders = (if length (keys cookiesObj) > 0 then
                              (let cookieString = join ''; '' (map (\<lambda>(k, v). k @ ''='' @ v) cookiesObj)
                               in spread requestHeaders [(''Cookie'', cookieString)])
                            else requestHeaders)
      in (requestHeaders, cookiesObj))"

fun decimal :: "nat \<Rightarrow> string" where
  \<comment> \<open>a number in a template literal\<close>
  "decimal n = (if n < 10 then [char_of (48 + n)] else decimal (n div 10) @ [char_of (48 + n mod 10)])"

definition appendTimestampToUrl :: "nat \<Rightarrow> string \<Rightarrow> string" where
  \<comment> \<open>the first argument is the reading of \<open>Date.now()\<close>\<close>
  "appendTimestampToUrl now url =
     (let separator = (if includes_chr url (CHR ''?'') then ''&'' else ''?'')
      in url @ separator @ ''_='' @ decimal now)"

text \<open>Exceptions, the items of the host and the records the node returns.\<close>

datatype js_error =
    PlainError string
  | ContextError string "nat option"
  | NodeOperationError js_error nat
  | TypeError

datatype payload =
    Links "string list"
  | TextData string "string option" "string option"
  | HtmlData string "string option" "string option"

datatype json_data =
    InputJson string
  | ResultJson string string string payload

record node_execution_data =
  json :: json_data
  error :: "js_error option"
  pairedItem :: "nat option"

text \<open>The parameters of one item, each field named after the parameter it holds.\<close>

record node_parameters =
  param_url :: string
  param_operation :: string
  param_useBrowser :: bool
  param_proxyUrls :: string
  param_headerInputType :: string
  param_jsonHeaders :: jsrecord
  param_rawHeaderString :: string
  param_cookieInputType :: string
  param_jsonCookies :: jsrecord
  param_rawCookieString :: string

text \<open>
  A fetched page, as the request handler sees it: the \<open>href\<close> attributes of the elements
  matching \<open>a[href]\<close> in document order, the text of the body, the title, the \<open>content\<close>
  of the description \<open>meta\<close> element when there is one, and the document.
\<close>

record page =
  requestUrl :: string
  hrefs :: "string list"
  bodyText :: string
  titleText :: string
  metaDescription :: "string option"
  content :: string

datatype fetch_config =
    Static jsrecord
  | Browser page_session

record crawl_request =
  startUrl :: string
  config :: fetch_config
  proxyConfiguration :: "string list option"
  requestHandlerTimeoutSecs :: nat
  maxRequestsPerCrawl :: "nat option"

text \<open>
  The host: \<open>getNodeParameters i\<close> is the outcome of the ten \<open>getNodeParameter\<close> calls of
  iteration \<open>i\<close> (they have no effect on the node, so the first that throws decides),
  \<open>getInputData\<close> is the host's method of that name, \<open>newProxyConfiguration\<close> is the
  constructor \<open>new ProxyConfiguration({ proxyUrls })\<close> of the crawling library, which throws
  on a list it does not accept, and \<open>runCrawler\<close> is one \<open>crawler.run([url])\<close>: it throws,
  or it hands the pages it loaded to the request handler. The pre-navigation hook is taken
  to run once, on a fresh page or on the crawler's own request headers, before the load.
\<close>

record host =
  getNodeParameters :: "nat \<Rightarrow> js_error + node_parameters"
  getInputData :: "nat \<Rightarrow> js_error + node_execution_data list"
  continueOnFail :: bool
  newProxyConfiguration :: "string list \<Rightarrow> js_error + string list"
  runCrawler :: "crawl_request \<Rightarrow> js_error + page list"
  newURL :: "string \<Rightarrow> string \<Rightarrow> string option"
  dateNow :: nat
  crawlerRequestHeaders :: jsrecord

record exec_state =
  items :: "node_execution_data list"
  returnData :: "node_execution_data list"
  fetchLog :: "crawl_request list"

definition orNull :: "string \<Rightarrow> string option" where
  \<comment> \<open>\<open>s || null\<close>\<close>
  "orNull s = (if s = [] then None else Some s)"

definition resultRecord :: "string \<Rightarrow> string \<Rightarrow> payload \<Rightarrow> node_execution_data" where
  "resultRecord message originalUrl pl =
     \<lparr>json = ResultJson ''success'' message originalUrl pl, error = None, pairedItem = None\<rparr>"

definition buildRequest ::
  "host \<Rightarrow> string \<Rightarrow> bool \<Rightarrow> jsrecord \<Rightarrow> jsrecord \<Rightarrow> string list option \<Rightarrow> nat option \<Rightarrow> crawl_request" where
  \<comment> \<open>the crawler an operation constructs and the hook it runs, on either path\<close>
  "buildRequest h originalUrl viaBrowser jsonHeaders cookiesObj proxyCfg maxReq =
     (if viaBrowser then
        \<lparr>startUrl = appendTimestampToUrl (dateNow h) originalUrl,
         config = Browser (fst (browserPreNavigationHook jsonHeaders cookiesObj originalUrl newPage)),
         proxyConfiguration = proxyCfg,
         requestHandlerTimeoutSecs = 60,
         maxRequestsPerCrawl = maxReq\<rparr>
      else
        \<lparr>startUrl = appendTimestampToUrl (dateNow h) originalUrl,
         config = Static (fst (staticPreNavigationHook jsonHeaders cookiesObj (crawlerRequestHeaders h))),
         proxyConfiguration = proxyCfg,
         requestHandlerTimeoutSecs = 30,
         maxRequestsPerCrawl = maxReq\<rparr>)"

definition linksOfPage :: "host \<Rightarrow> page \<Rightarrow> string list" where
  "linksOfPage h pg = collectLinks (newURL h) (requestUrl pg) (hrefs pg)"

definition uniqueLinks :: "host \<Rightarrow> page list \<Rightarrow> string list" where
  \<comment> \<open>\<open>[...new Set(crawledData.flatMap((item) => item.links))]\<close>\<close>
  "uniqueLinks h pages = setInOrder (concat (map (linksOfPage h) pages))"

definition textRecord :: "bool \<Rightarrow> string \<Rightarrow> page \<Rightarrow> node_execution_data" where
  "textRecord viaBrowser originalUrl pg =
     (if viaBrowser
      then resultRecord ''Text extraction finished'' originalUrl
             (TextData (trim (bodyText pg)) (Some (titleText pg)) (metaDescription pg))
      else resultRecord ''Text extraction finished'' originalUrl
             (TextData (trim (bodyText pg)) (orNull (titleText pg))
                (case metaDescription pg of None \<Rightarrow> None | Some d \<Rightarrow> orNull d)))"

definition htmlRecord :: "bool \<Rightarrow> string \<Rightarrow> page \<Rightarrow> node_execution_data" where
  "htmlRecord viaBrowser originalUrl pg =
     (if viaBrowser
      then resultRecord ''HTML extraction finished'' originalUrl
             (HtmlData (content pg) (Some (titleText pg)) (metaDescription pg))
      else resultRecord ''HTML extraction finished'' originalUrl
             (HtmlData (content pg) (orNull (titleText pg))
                (case metaDescription pg of None \<Rightarrow> None | Some d \<Rightarrow> orNull d)))"

text \<open>
  What one iteration computes from its parameters before it looks at the operation: the
  header object, the cookie object, the proxy lines, and the proxy configuration, whose
  constructor is called whenever there is a proxy line and may throw.
\<close>

definition itemHeaders :: "node_parameters \<Rightarrow> jsrecord" where
  "itemHeaders p =
     (if param_headerInputType p = ''json'' then param_jsonHeaders p
      else if param_rawHeaderString p \<noteq> [] then parseRawHeaders (param_rawHeaderString p)
      else [])"

definition itemCookies :: "node_parameters \<Rightarrow> jsrecord" where
  "itemCookies p =
     (if param_cookieInputType p = ''json'' then param_jsonCookies p
      else cookiesFromRawString (param_rawCookieString p))"

definition itemProxyUrls :: "node_parameters \<Rightarrow> string list" where
  "itemProxyUrls p = filter (\<lambda>u. u \<noteq> []) (map trim (split_str (CHR 0x0A) (param_proxyUrls p)))"

definition itemProxy :: "host \<Rightarrow> node_parameters \<Rightarrow> js_error + string list option" where
  "itemProxy h p =
     (if length (itemProxyUrls p) > 0 then
        (case newProxyConfiguration h (itemProxyUrls p) of
           Inl e \<Rightarrow> Inl e
         | Inr cfg \<Rightarrow> Inr (Some cfg))
      else Inr None)"

definition itemRequest :: "host \<Rightarrow> node_parameters \<Rightarrow> string list option \<Rightarrow> nat option \<Rightarrow> crawl_request" where
  "itemRequest h p proxyCfg maxReq =
     buildRequest h (param_url p) (param_useBrowser p) (itemHeaders p) (itemCookies p) proxyCfg maxReq"

definition tryBlock :: "host \<Rightarrow> nat \<Rightarrow> exec_state \<Rightarrow> (js_error \<times> exec_state) + exec_state" where
  \<comment> \<open>the body of \<open>try\<close> for one item: \<open>Inl\<close> carries the exception and the state it leaves\<close>
  "tryBlock h itemIndex st =
     (case getNodeParameters h itemIndex of
        Inl e \<Rightarrow> Inl (e, st)
      | Inr p \<Rightarrow>
          (case itemProxy h p of
             Inl e \<Rightarrow> Inl (e, st)
           | Inr proxyCfg \<Rightarrow>
               if param_operation p = ''extractLinks'' then
                 (let req = itemRequest h p proxyCfg (Some 100);
                      st = st\<lparr>fetchLog := fetchLog st @ [req]\<rparr>
                  in case runCrawler h req of
                       Inl e \<Rightarrow> Inl (e, st)
                     | Inr pages \<Rightarrow>
                         Inr (st\<lparr>returnData := returnData st @
                                [resultRecord ''Crawling finished'' (param_url p) (Links (uniqueLinks h pages))]\<rparr>))
               else if param_operation p = ''extractText'' then
                 (let req = itemRequest h p proxyCfg None;
                      st = st\<lparr>fetchLog := fetchLog st @ [req]\<rparr>
                  in case runCrawler h req of
                       Inl e \<Rightarrow> Inl (e, st)
                     | Inr pages \<Rightarrow>
                         Inr (st\<lparr>returnData := returnData st @
                                map (textRecord (param_useBrowser p) (param_url p)) pages\<rparr>))
               else if param_operation p = ''extractHtml'' then
                 (let req = itemRequest h p proxyCfg None;
                      st = st\<lparr>fetchLog := fetchLog st @ [req]\<rparr>
                  in case runCrawler h req of
                       Inl e \<Rightarrow> Inl (e, st)
                     | Inr pages \<Rightarrow>
                         Inr (st\<lparr>returnData := returnData st @
                                map (htmlRecord (param_useBrowser p) (param_url p)) pages\<rparr>))
               else Inr st))"

definition stateAfter :: "(js_error \<times> exec_state) + exec_state \<Rightarrow> exec_state" where
  \<comment> \<open>the state the body of \<open>try\<close> leaves, whether it ended or threw\<close>
  "stateAfter r = (case r of Inl (e, st) \<Rightarrow> st | Inr st \<Rightarrow> st)"

definition attachItemIndex :: "js_error \<Rightarrow> nat \<Rightarrow> js_error" where
  \<comment> \<open>what is thrown when the failure is not to be continued over\<close>
  "attachItemIndex e itemIndex =
     (case e of
        ContextError m _ \<Rightarrow> ContextError m (Some itemIndex)
      | _ \<Rightarrow> NodeOperationError e itemIndex)"

definition catchBlock :: "host \<Rightarrow> nat \<Rightarrow> js_error \<Rightarrow> exec_state \<Rightarrow> js_error + exec_state" where
  "catchBlock h itemIndex e st =
     (if continueOnFail h then
        (case getInputData h itemIndex of
           Inl e' \<Rightarrow> Inl e'
         | Inr [] \<Rightarrow> Inl TypeError
         | Inr (x # _) \<Rightarrow>
             Inr (st\<lparr>items := items st @ [\<lparr>json = json x, error = Some e, pairedItem = Some itemIndex\<rparr>]\<rparr>))
      else Inl (attachItemIndex e itemIndex))"

fun execLoop :: "nat \<Rightarrow> host \<Rightarrow> nat \<Rightarrow> exec_state \<Rightarrow> (js_error + exec_state) option" where
  \<comment> \<open>\<open>for (let itemIndex = 0; itemIndex < items.length; itemIndex++)\<close>; the bound is read
      anew at every turn and \<open>items\<close> can grow, so the loop is run on fuel and \<open>None\<close> says
      that the fuel did not suffice\<close>
  "execLoop fuel h itemIndex st =
     (if itemIndex < length (items st) then
        (case fuel of
           0 \<Rightarrow> None
         | Suc fuel' \<Rightarrow>
             (case tryBlock h itemIndex st of
                Inr st' \<Rightarrow> execLoop fuel' h (itemIndex + 1) st'
              | Inl (e, st') \<Rightarrow>
                  (case catchBlock h itemIndex e st' of
                     Inl e' \<Rightarrow> Some (Inl e')
                   | Inr st'' \<Rightarrow> execLoop fuel' h (itemIndex + 1) st'')))
      else Some (Inr st))"

declare execLoop.simps [simp del]

definition execute :: "nat \<Rightarrow> host \<Rightarrow> (js_error + node_execution_data list list) option" where
  "execute fuel h =
     (case getInputData h 0 of
        Inl e \<Rightarrow> Some (Inl e)
      | Inr inputItems \<Rightarrow>
          (case execLoop fuel h 0 \<lparr>items = inputItems, returnData = [], fetchLog = []\<rparr> of
             None \<Rightarrow> None
           | Some (Inl e) \<Rightarrow> Some (Inl e)
           | Some (Inr st) \<Rightarrow> Some (Inr [returnData st])))"

definition error_itemIndex :: "js_error \<Rightarrow> nat option" where
  \<comment> \<open>the item index an exception carries\<close>
  "error_itemIndex e =
     (case e of
        ContextError _ i \<Rightarrow> i
      | NodeOperationError _ i \<Rightarrow> Some i
      | _ \<Rightarrow> None)"

text \<open>
  The links of a page in the words of the specification: the resolved \<open>href\<close> of every
  anchor with a non-empty \<open>href\<close>, those that do not resolve left out.
\<close>

definition resolved_hrefs :: "host \<Rightarrow> page \<Rightarrow> string list" where
  "resolved_hrefs h pg =
     List.map_filter (\<lambda>href. if href \<noteq> [] then newURL h href (requestUrl pg) else None) (hrefs pg)"

section \<open>Notions for the statements about the header normalizer\<close>

text \<open>
  The key and the value the colon form reads off a line, the step of the alternating form
  on one pair of lines, and a line \<open>k: v\<close> written with blanks \<open>w1\<close>, \<open>w2\<close> and quote
  characters \<open>q1\<close>, \<open>q2\<close> around its key.
\<close>

definition keyOf :: "string \<Rightarrow> string" where
  "keyOf line = removeQuotes (trim (takeWhile (\<lambda>c. c \<noteq> CHR '':'') line))"

definition valueOf :: "string \<Rightarrow> string" where
  "valueOf line = trim (tl (dropWhile (\<lambda>c. c \<noteq> CHR '':'') line))"

definition pairStep :: "jsrecord \<Rightarrow> string \<times> string \<Rightarrow> jsrecord" where
  "pairStep h p =
     (if \<not> key_discarded (removeQuotes (trim (fst p)))
      then setProperty (removeQuotes (trim (fst p))) (trim (snd p)) h else h)"

definition decoratedLine :: "string \<times> string \<times> string \<times> string \<times> string \<times> string \<Rightarrow> string" where
  "decoratedLine = (\<lambda>(w1, q1, k, q2, w2, v). w1 @ q1 @ k @ q2 @ w2 @ '':'' @ v)"

definition plainLine :: "string \<times> string \<times> string \<times> string \<times> string \<times> string \<Rightarrow> string" where
  "plainLine = (\<lambda>(w1, q1, k, q2, w2, v). k @ '':'' @ v)"

definition decoration_ok :: "string \<times> string \<times> string \<times> string \<times> string \<times> string \<Rightarrow> bool" where
  "decoration_ok = (\<lambda>(w1, q1, k, q2, w2, v).
      blank w1 \<and> blank w2 \<and> quotes q1 \<and> quotes q2 \<and> trim k = k
      \<and> CHR '':'' \<notin> set k \<and> CHR 0x0A \<notin> set k \<and> CHR 0x0A \<notin> set v)"

section \<open>A small host to run the model on\<close>

text \<open>
  Two input items: the first asks for the text of a page that loads, the second for the
  text at a URL on which the run of the crawler throws. The further indices are parameter
  sets used to run single iterations: an operation the node does not know (2), the same
  with a proxy line the constructor rejects (3), the links of the page that loads (4), and
  its text through the browser with a \<open>User-Agent\<close> header (5).
  \<open>getInputData i\<close> answers as the workflow host does for a node with one input: the
  items of input \<open>0\<close>, and nothing for any other input index.
\<close>

definition demoParams :: "nat \<Rightarrow> node_parameters" where
  "demoParams i =
     \<lparr>param_url = (if i = 1 then ''not a url'' else ''http://ok.test/p''),
      param_operation =
        (if i < 2 then ''extractText'' else if i < 4 then ''crawl''
         else if i = 4 then ''extractLinks'' else ''extractText''),
      param_useBrowser = (5 \<le> i),
      param_proxyUrls = (if i = 3 then ''not a proxy'' else []),
      param_headerInputType = ''json'',
      param_jsonHeaders =
        (if 5 \<le> i then [(''Cookie'', ''a=1''), (''USER-AGENT'', ''Mozilla/5.0 X'')] else []),
      param_rawHeaderString = [],
      param_cookieInputType = ''json'',
      param_jsonCookies = [],
      param_rawCookieString = []\<rparr>"

definition demoPage :: page where
  "demoPage =
     \<lparr>requestUrl = ''http://ok.test/p?_=7'',
      hrefs = [''/x'', ''http://y.com'', ''/x'', '''', ''http://[''],
      bodyText = '' Hello '',
      titleText = ''T'',
      metaDescription = Some ''D'',
      content = ''<html></html>''\<rparr>"

definition demoNewURL :: "string \<Rightarrow> string \<Rightarrow> string option" where
  "demoNewURL href base =
     (if href = ''/x'' then Some ''http://ok.test/x''
      else if href = ''http://y.com'' then Some ''http://y.com/''
      else None)"

definition demoItems :: "node_execution_data list" where
  "demoItems =
     [\<lparr>json = InputJson ''{\"n\":0}'', error = None, pairedItem = None\<rparr>,
      \<lparr>json = InputJson ''{\"n\":1}'', error = None, pairedItem = None\<rparr>]"

definition demoHost :: "bool \<Rightarrow> host" where
  "demoHost cont =
     \<lparr>getNodeParameters = (\<lambda>i. Inr (demoParams i)),
      getInputData = (\<lambda>i. if i = 0 then Inr demoItems else Inr []),
      continueOnFail = cont,
      newProxyConfiguration =
        (\<lambda>urls. if list_all (\<lambda>u. take 7 u = ''http://'') urls then Inr urls
                 else Inl (PlainError ''ArgumentError'')),
      runCrawler = (\<lambda>req. if take 15 (startUrl req) = ''http://ok.test/''
                             then Inr [demoPage] else Inl (PlainError ''Invalid URL'')),
      newURL = demoNewURL,
      dateNow = 7,
      crawlerRequestHeaders = []\<rparr>"

text \<open>A state of the loop whose returned records are all free of an \<open>error\<close>.\<close>

definition successOnly :: "exec_state \<Rightarrow> bool" where
  "successOnly st \<longleftrightarrow> list_all (\<lambda>r. error r = None) (returnData st)"

section \<open>Facts about the string methods\<close>

lemma indexOf_notin: "c \<notin> set s \<Longrightarrow> indexOf c s = - 1"
  by (induction s) (auto simp: Let_def)

lemma indexOf_nonneg_or: "indexOf c s = - 1 \<or> 0 \<le> indexOf c s"
  by (induction s) (auto simp: Let_def)

lemma indexOf_in: "c \<in> set s \<Longrightarrow> indexOf c s = int (length (takeWhile (\<lambda>x. x \<noteq> c) s))"
  by (induction s) (auto simp: Let_def indexOf_notin)

lemma indexOf_minus1_iff: "indexOf c s = - 1 \<longleftrightarrow> c \<notin> set s"
  using indexOf_in [of c s] indexOf_notin [of c s] by auto

lemma slice_prefix: "n \<le> length s \<Longrightarrow> slice s 0 (int n) = take n s"
  by (simp add: slice_def relativeIndex_def)

lemma sliceFrom_drop: "sliceFrom s (int n) = drop n s"
  by (cases "n \<le> length s") (simp_all add: sliceFrom_def slice_def relativeIndex_def Let_def min_def)

lemma drop_takeWhile_tl: "drop (Suc (length (takeWhile P s))) s = tl (dropWhile P s)"
  by (induction s) auto

lemma trim_pad_left: "\<forall>c\<in>set w. isWhiteSpace c \<Longrightarrow> trim (w @ s) = trim s"
  by (simp add: trim_def dropWhile_append)

lemma dropWhile_all: "\<forall>c\<in>set w. P c \<Longrightarrow> dropWhile P w = []"
  by simp

lemma trim_pad_right: "\<forall>c\<in>set w. isWhiteSpace c \<Longrightarrow> trim (s @ w) = trim s"
proof (cases "\<forall>c\<in>set s. isWhiteSpace c")
  case True
  assume "\<forall>c\<in>set w. isWhiteSpace c"
  with True have a: "dropWhile isWhiteSpace (s @ w) = []" and b: "dropWhile isWhiteSpace s = []"
    by simp_all
  show ?thesis unfolding trim_def a b by simp
next
  case False
  assume w: "\<forall>c\<in>set w. isWhiteSpace c"
  from False have "dropWhile isWhiteSpace (s @ w) = dropWhile isWhiteSpace s @ w"
    by (auto simp: dropWhile_append)
  with w show ?thesis by (simp add: trim_def dropWhile_append)
qed

lemma split_str_nonempty: "split_str c s \<noteq> []"
  by (induction s) (auto split: list.splits)

lemma split_str_snoc: "split_str c (s @ [c]) = split_str c s @ [[]]"
  by (induction s) (auto split: list.splits simp: split_str_nonempty)

lemma split_str_no_sep: "c \<notin> set s \<Longrightarrow> split_str c s = [s]"
  by (induction s) auto

lemma split_str_append_sep: "c \<notin> set x \<Longrightarrow> split_str c (x @ c # rest) = x # split_str c rest"
  by (induction x) (auto split: list.splits)

lemma split_str_join:
  "xs \<noteq> [] \<Longrightarrow> \<forall>x\<in>set xs. c \<notin> set x \<Longrightarrow> split_str c (join [c] xs) = xs"
proof (induction xs)
  case Nil
  then show ?case by simp
next
  case (Cons x xs)
  show ?case
  proof (cases xs)
    case Nil
    with Cons.prems show ?thesis by (simp add: split_str_no_sep)
  next
    case (Cons y ys)
    with Cons.IH Cons.prems show ?thesis by (simp add: split_str_append_sep)
  qed
qed


section \<open>Facts about objects\<close>

lemma keys_set: "set (keys obj) = fst ` set obj"
  by (simp add: keys_def)

lemma fst_set_insertIndexKey: "fst ` set (insertIndexKey k v obj) = insert k (fst ` set obj)"
  by (induction k v obj rule: insertIndexKey.induct) auto

lemma keys_insertIndexKey: "set (keys (insertIndexKey k v obj)) = insert k (set (keys obj))"
  by (simp only: keys_set fst_set_insertIndexKey)

lemma map_of_insertIndexKey:
  "k \<notin> fst ` set obj \<Longrightarrow> map_of (insertIndexKey k v obj) = (map_of obj)(k \<mapsto> v)"
proof (induction obj)
  case Nil
  then show ?case by simp
next
  case (Cons p obj)
  obtain k' v' where p: "p = (k', v')" by (cases p)
  from Cons.prems have n: "k \<notin> fst ` set obj" "k \<noteq> k'" by (auto simp: p)
  show ?case
  proof (cases "isArrayIndex k' \<and> digitsValue k' < digitsValue k")
    case True
    then have "map_of (insertIndexKey k v (p # obj)) = (map_of (insertIndexKey k v obj))(k' \<mapsto> v')"
      by (simp add: p)
    also have "\<dots> = ((map_of obj)(k \<mapsto> v))(k' \<mapsto> v')" by (simp only: Cons.IH [OF n(1)])
    also have "\<dots> = ((map_of obj)(k' \<mapsto> v'))(k \<mapsto> v)" using n(2) by (simp add: fun_upd_twist)
    finally show ?thesis by (simp only: p map_of.simps fst_conv snd_conv)
  next
    case False
    then show ?thesis by (auto simp: p fun_eq_iff)
  qed
qed

lemma distinct_insertIndexKey:
  "k \<notin> fst ` set obj \<Longrightarrow> distinct (map fst obj) \<Longrightarrow> distinct (map fst (insertIndexKey k v obj))"
proof (induction obj)
  case Nil
  then show ?case by simp
next
  case (Cons p obj)
  obtain k' v' where p: "p = (k', v')" by (cases p)
  from Cons.prems have a: "k \<notin> fst ` set obj" "distinct (map fst obj)" "k \<noteq> k'" "k' \<notin> fst ` set obj"
    by (auto simp: p)
  from Cons.IH [OF a(1,2)] have "distinct (map fst (insertIndexKey k v obj))" .
  moreover have "k' \<notin> fst ` set (insertIndexKey k v obj)"
    using a by (simp only: fst_set_insertIndexKey) simp
  ultimately show ?case using Cons.prems by (auto simp: p)
qed

lemma map_of_update_in: "map_of (AList.update k v obj) = (map_of obj)(k \<mapsto> v)"
  by (rule update_conv')

lemma map_of_append_new: "k \<notin> fst ` set obj \<Longrightarrow> map_of (obj @ [(k, v)]) = (map_of obj)(k \<mapsto> v)"
proof -
  assume "k \<notin> fst ` set obj"
  then have "map_of obj k = None" by (simp add: map_of_eq_None_iff)
  then show ?thesis by (auto simp: fun_eq_iff map_add_def split: option.splits)
qed

lemma map_of_defineProperty: "map_of (defineProperty k v obj) = (map_of obj)(k \<mapsto> v)"
  unfolding defineProperty_def keys_set
  by (simp add: map_of_update_in map_of_insertIndexKey map_of_append_new del: map_of_append)

lemma fst_set_update: "fst ` set (AList.update k v obj) = insert k (fst ` set obj)"
  by (induction obj) auto

lemma keys_defineProperty: "set (keys (defineProperty k v obj)) = insert k (set (keys obj))"
  unfolding defineProperty_def keys_set
  by (simp add: fst_set_update fst_set_insertIndexKey)

lemma distinct_defineProperty:
  "distinct (keys obj) \<Longrightarrow> distinct (keys (defineProperty k v obj))"
  unfolding defineProperty_def keys_set
  by (simp add: keys_def distinct_insertIndexKey distinct_update)

lemma setProperty_not_proto:
  "k \<noteq> ''__proto__'' \<Longrightarrow> setProperty k v obj = defineProperty k v obj"
  by (simp add: setProperty_def)

lemma setProperty_proto:
  "''__proto__'' \<notin> set (keys obj) \<Longrightarrow> setProperty ''__proto__'' v obj = obj"
  by (simp add: setProperty_def)

lemma keys_setProperty_subset: "set (keys (setProperty k v obj)) \<subseteq> insert k (set (keys obj))"
  by (auto simp: setProperty_def keys_defineProperty)

lemma proto_free_setProperty:
  "''__proto__'' \<notin> set (keys obj) \<Longrightarrow> ''__proto__'' \<notin> set (keys (setProperty k v obj))"
  by (cases "k = ''__proto__''") (simp_all add: setProperty_def keys_defineProperty)

lemma distinct_setProperty: "distinct (keys obj) \<Longrightarrow> distinct (keys (setProperty k v obj))"
  by (simp add: setProperty_def distinct_defineProperty)

lemma map_of_foldl_setProperty:
  assumes step: "\<And>h x. step h x = (if keep x then setProperty (fst (kv x)) (snd (kv x)) h else h)"
    and free: "''__proto__'' \<notin> set (keys h)"
  shows "map_of (foldl step h xs) = map_of h ++ map_of (rev (settable (map kv (filter keep xs))))
       \<and> ''__proto__'' \<notin> set (keys (foldl step h xs))"
  using free
proof (induction xs arbitrary: h)
  case Nil
  then show ?case by (simp add: settable_def)
next
  case (Cons x xs)
  let ?M = "map_of (rev (settable (map kv (filter keep xs))))"
  obtain k v where kv: "kv x = (k, v)" by (cases "kv x")
  consider (c_skip) "\<not> keep x" | (c_proto) "keep x" "k = ''__proto__''" | (c_write) "keep x" "k \<noteq> ''__proto__''"
    by blast
  then show ?case
  proof cases
    case c_skip
    then have "foldl step h (x # xs) = foldl step h xs" by (simp add: step)
    moreover from c_skip have "settable (map kv (filter keep (x # xs))) = settable (map kv (filter keep xs))"
      by simp
    ultimately show ?thesis using Cons.IH [OF Cons.prems] by simp
  next
    case c_proto
    then have "step h x = h" using Cons.prems by (simp add: step kv setProperty_proto)
    then have "foldl step h (x # xs) = foldl step h xs" by simp
    moreover from c_proto have "settable (map kv (filter keep (x # xs))) = settable (map kv (filter keep xs))"
      by (simp add: settable_def kv)
    ultimately show ?thesis using Cons.IH [OF Cons.prems] by simp
  next
    case c_write
    let ?h = "defineProperty k v h"
    from c_write have s: "step h x = ?h" by (simp add: step kv setProperty_not_proto)
    from c_write Cons.prems have f: "''__proto__'' \<notin> set (keys ?h)"
      by (simp add: keys_defineProperty)
    have e: "foldl step h (x # xs) = foldl step ?h xs" by (simp only: foldl_Cons s)
    have "map_of (foldl step h (x # xs)) = map_of ?h ++ ?M"
      using Cons.IH [OF f] by (simp only: e)
    also have "\<dots> = (map_of h ++ [k \<mapsto> v]) ++ ?M"
      by (simp only: map_of_defineProperty map_add_upd map_add_empty)
    also have "\<dots> = map_of h ++ ([k \<mapsto> v] ++ ?M)"
      by (simp only: map_add_assoc)
    also have "[k \<mapsto> v] ++ ?M = map_of (rev (settable (map kv (filter keep (x # xs)))))"
      using c_write by (simp add: settable_def kv)
    finally have "map_of (foldl step h (x # xs)) =
        map_of h ++ map_of (rev (settable (map kv (filter keep (x # xs)))))" .
    moreover have "''__proto__'' \<notin> set (keys (foldl step h (x # xs)))"
      unfolding e using Cons.IH [OF f] by blast
    ultimately show ?thesis by simp
  qed
qed

lemma distinct_foldl_setProperty:
  assumes step: "\<And>h x. step h x = (if keep x then setProperty (fst (kv x)) (snd (kv x)) h else h)"
  shows "distinct (keys h) \<Longrightarrow> distinct (keys (foldl step h xs))"
proof (induction xs arbitrary: h)
  case Nil
  then show ?case by simp
next
  case (Cons x xs)
  have "distinct (keys (step h x))" using Cons.prems by (simp add: step distinct_setProperty)
  then show ?case using Cons.IH [of "step h x"] by (simp only: foldl_Cons)
qed

lemma map_of_assign:
  "distinct (map fst src) \<Longrightarrow> ''__proto__'' \<notin> set (keys src) \<Longrightarrow>
   map_of (assign tgt src) = map_of tgt ++ map_of src"
proof (induction src arbitrary: tgt)
  case Nil
  then show ?case by (simp add: assign_def)
next
  case (Cons p src)
  obtain k v where p: "p = (k, v)" by (cases p)
  from Cons.prems p have nk: "k \<notin> dom (map_of src)" and d: "distinct (map fst src)"
    and np: "k \<noteq> ''__proto__''" and f: "''__proto__'' \<notin> set (keys src)"
    by (auto simp: dom_map_of_conv_image_fst keys_def)
  have "map_of (assign tgt (p # src)) = map_of (assign (defineProperty k v tgt) src)"
    using np by (simp add: assign_def p setProperty_not_proto)
  also have "\<dots> = (map_of tgt)(k \<mapsto> v) ++ map_of src"
    by (simp only: Cons.IH [OF d f] map_of_defineProperty)
  also have "\<dots> = map_of tgt ++ map_of (p # src)"
    using nk by (simp add: p map_add_upd_left)
  finally show ?case .
qed

section \<open>The cookie grammar\<close>

lemma cookieReducer_eq:
  "cookieReducer acc s =
     (if CHR ''='' \<in> set s
      then setProperty (takeWhile (\<lambda>c. c \<noteq> CHR ''='') s) (tl (dropWhile (\<lambda>c. c \<noteq> CHR ''='') s)) acc
      else acc)"
proof (cases "CHR ''='' \<in> set s")
  case False
  then show ?thesis by (simp add: cookieReducer_def indexOf_notin)
next
  case True
  let ?n = "length (takeWhile (\<lambda>c. c \<noteq> CHR ''='') s)"
  have i: "indexOf (CHR ''='') s = int ?n" using True by (rule indexOf_in)
  have le: "?n \<le> length s" by (rule length_takeWhile_le)
  have a: "slice s 0 (int ?n) = takeWhile (\<lambda>c. c \<noteq> CHR ''='') s"
    using slice_prefix [OF le] by (simp only: takeWhile_eq_take [symmetric])
  have "int ?n + 1 = int (Suc ?n)" by simp
  then have b: "sliceFrom s (int ?n + 1) = tl (dropWhile (\<lambda>c. c \<noteq> CHR ''='') s)"
    using sliceFrom_drop [of s "Suc ?n"] by (simp only: drop_takeWhile_tl)
  show ?thesis using True by (simp add: cookieReducer_def i a b Let_def)
qed

lemma cookieReducer_pair:
  "cookieReducer acc s =
     (if CHR ''='' \<in> set s then setProperty (fst (cookie_pair s)) (snd (cookie_pair s)) acc else acc)"
  by (simp add: cookieReducer_eq cookie_pair_def)

lemma parseRawCookies_facts:
  "map_of (parseRawCookies raw) = map_of (rev (settable (cookie_pairs_spec raw)))
   \<and> ''__proto__'' \<notin> set (keys (parseRawCookies raw))"
proof -
  have f: "''__proto__'' \<notin> set (keys [])" by (simp add: keys_def)
  from map_of_foldl_setProperty [of cookieReducer "\<lambda>seg. CHR ''='' \<in> set seg" cookie_pair "[]",
      OF cookieReducer_pair f]
  show ?thesis by (simp add: parseRawCookies_def cookie_pairs_spec_def)
qed

lemma map_of_parseRawCookies:
  "map_of (parseRawCookies raw) = map_of (rev (settable (cookie_pairs_spec raw)))"
  using parseRawCookies_facts by blast

lemma proto_free_parseRawCookies: "''__proto__'' \<notin> set (keys (parseRawCookies raw))"
  using parseRawCookies_facts by blast

lemma distinct_parseRawCookies: "distinct (map fst (parseRawCookies raw))"
proof -
  have "distinct (keys [])" by (simp add: keys_def)
  from distinct_foldl_setProperty [of cookieReducer "\<lambda>seg. CHR ''='' \<in> set seg" cookie_pair "[]",
      OF cookieReducer_pair this]
  show ?thesis by (simp add: parseRawCookies_def keys_def)
qed

lemma map_of_assign_cookies:
  "map_of (assign tgt (parseRawCookies raw)) = map_of tgt ++ map_of (parseRawCookies raw)"
  by (rule map_of_assign [OF distinct_parseRawCookies proto_free_parseRawCookies])

lemma parseRawCookies_trailing: "parseRawCookies (raw @ '';'') = parseRawCookies raw"
  using split_str_snoc [of "CHR '';''" raw] by (simp add: parseRawCookies_def trim_def)

lemma parseRawCookies_empty: "parseRawCookies [] = []"
  by (simp add: parseRawCookies_def trim_def)

lemma cookiesFromRawString_eq: "cookiesFromRawString raw = parseRawCookies raw"
  by (simp add: cookiesFromRawString_def parseRawCookies_empty)

lemma semicolon_not_space: "\<not> isWhiteSpace (CHR '';'')"
  by (simp add: isWhiteSpace_def)

lemma trim_pad: "\<forall>c\<in>set w1. isWhiteSpace c \<Longrightarrow> \<forall>c\<in>set w2. isWhiteSpace c \<Longrightarrow> trim (w1 @ s @ w2) = trim s"
  by (simp add: trim_pad_left trim_pad_right)

lemma parseRawCookies_padding:
  assumes "\<forall>(w1, seg, w2)\<in>set segs.
             (\<forall>c\<in>set w1. isWhiteSpace c) \<and> (\<forall>c\<in>set w2. isWhiteSpace c) \<and> CHR '';'' \<notin> set seg"
  shows "parseRawCookies (join '';'' (map (\<lambda>(w1, seg, w2). w1 @ seg @ w2) segs)) =
         parseRawCookies (join '';'' (map (\<lambda>(w1, seg, w2). seg) segs))"
proof (cases "segs = []")
  case True
  then show ?thesis by simp
next
  case False
  let ?dec = "map (\<lambda>(w1, seg, w2). w1 @ seg @ w2) segs"
  let ?plain = "map (\<lambda>(w1, seg, w2). seg) segs"
  have nosep_dec: "\<forall>x\<in>set ?dec. CHR '';'' \<notin> set x"
    using assms semicolon_not_space by fastforce
  have nosep_plain: "\<forall>x\<in>set ?plain. CHR '';'' \<notin> set x"
    using assms by fastforce
  have a: "split_str (CHR '';'') (join '';'' ?dec) = ?dec"
    using False nosep_dec by (intro split_str_join) simp_all
  have b: "split_str (CHR '';'') (join '';'' ?plain) = ?plain"
    using False nosep_plain by (intro split_str_join) simp_all
  have c: "map trim ?dec = map trim ?plain"
    using assms by (auto simp: trim_pad)
  show ?thesis unfolding parseRawCookies_def a b c ..
qed

text \<open>
  Claim C6, as the code has it. The cookie normalizer splits the raw string on \<open>;\<close>,
  trims the segments, drops the empty ones and those without \<open>=\<close>, and maps the text
  before the first \<open>=\<close> of each remaining segment to the text after it (the later segment
  counting where a name repeats), except that a segment named \<open>__proto__\<close> adds no
  entry. For \<open>k1=v1; k2=v2\<close> it gives \<open>{k1: v1, k2: v2}\<close>; a trailing \<open>;\<close> and white
  space around the segments change nothing.
\<close>

theorem cookie_normalizer_grammar:
  "map_of (cookiesFromRawString raw) = map_of (rev (settable (cookie_pairs_spec raw)))
   \<and> cookiesFromRawString ''k1=v1; k2=v2'' = [(''k1'', ''v1''), (''k2'', ''v2'')]
   \<and> cookiesFromRawString (raw @ '';'') = cookiesFromRawString raw
   \<and> ((\<forall>(w1, seg, w2)\<in>set segs.
          (\<forall>c\<in>set w1. isWhiteSpace c) \<and> (\<forall>c\<in>set w2. isWhiteSpace c) \<and> CHR '';'' \<notin> set seg) \<longrightarrow>
        cookiesFromRawString (join '';'' (map (\<lambda>(w1, seg, w2). w1 @ seg @ w2) segs)) =
        cookiesFromRawString (join '';'' (map (\<lambda>(w1, seg, w2). seg) segs)))"
proof (intro conjI impI)
  show "map_of (cookiesFromRawString raw) = map_of (rev (settable (cookie_pairs_spec raw)))"
    by (simp only: cookiesFromRawString_eq map_of_parseRawCookies)
  show "cookiesFromRawString ''k1=v1; k2=v2'' = [(''k1'', ''v1''), (''k2'', ''v2'')]"
    by code_simp
  show "cookiesFromRawString (raw @ '';'') = cookiesFromRawString raw"
    by (simp only: cookiesFromRawString_eq parseRawCookies_trailing)
next
  assume "\<forall>(w1, seg, w2)\<in>set segs.
            (\<forall>c\<in>set w1. isWhiteSpace c) \<and> (\<forall>c\<in>set w2. isWhiteSpace c) \<and> CHR '';'' \<notin> set seg"
  then show "cookiesFromRawString (join '';'' (map (\<lambda>(w1, seg, w2). w1 @ seg @ w2) segs)) =
        cookiesFromRawString (join '';'' (map (\<lambda>(w1, seg, w2). seg) segs))"
    by (simp only: cookiesFromRawString_eq parseRawCookies_padding)
qed

theorem cookie_normalizer_grammar_witness:
  "cookiesFromRawString '' k1=v1;  k2=v2 '' = [(''k1'', ''v1''), (''k2'', ''v2'')]
   \<and> map_of (cookiesFromRawString ''a=1;b;a=2'') ''a'' = Some ''2''"
proof -
  have h: "\<forall>(w1, seg, w2)\<in>set [('' '', ''k1=v1'', ''''), (''  '', ''k2=v2'', '' '')].
      (\<forall>c\<in>set w1. isWhiteSpace c) \<and> (\<forall>c\<in>set w2. isWhiteSpace c) \<and> CHR '';'' \<notin> set seg"
    by (simp add: isWhiteSpace_def)
  have e: "cookiesFromRawString ''k1=v1;k2=v2'' = [(''k1'', ''v1''), (''k2'', ''v2'')]"
    by code_simp
  have s: "map_of (rev (settable (cookie_pairs_spec ''a=1;b;a=2''))) ''a'' = Some ''2''"
    by code_simp
  from cookie_normalizer_grammar [of "''a=1;b;a=2''" "[('' '', ''k1=v1'', ''''), (''  '', ''k2=v2'', '' '')]"] h e s
  show ?thesis by simp
qed

text \<open>
  The claim as the specification words it, with an entry for every segment that has a
  \<open>=\<close>, fails where a segment is named \<open>__proto__\<close>: the grammar pairs it with its
  value, the code creates no entry for it.
\<close>

theorem cookie_named_proto_is_lost:
  "cookiesFromRawString ''__proto__=x; a=1'' = [(''a'', ''1'')]
   \<and> cookie_pairs_spec ''__proto__=x; a=1'' = [(''__proto__'', ''x''), (''a'', ''1'')]"
  by code_simp


section \<open>The reconciler\<close>

lemma keys_delete: "set (keys (AList.delete k al)) = set (keys al) - {k}"
  by (auto simp: keys_def AList.delete_eq)

lemma map_of_defined: "k \<in> set (keys al) \<Longrightarrow> \<exists>v. map_of al k = Some v"
  by (cases "map_of al k") (auto simp: keys_def map_of_eq_None_iff)

lemma find_in_keys: "find P ks = Some k \<Longrightarrow> k \<in> set ks \<and> P k"
  by (auto simp: find_Some_iff)

lemma find_exists: "k' \<in> set ks \<Longrightarrow> P k' \<Longrightarrow> \<exists>k. find P ks = Some k"
  by (cases "find P ks") (auto simp: find_None_iff)

lemma processHeaders_no_cookie_header:
  "find (\<lambda>k. toLowerCase k = ''cookie'') (keys H) = None \<Longrightarrow>
   cookiesAfter (processHeaders H C) = C"
  by (simp add: processHeaders_def Let_def split: option.splits)

lemma processHeaders_cookie_header:
  assumes "find (\<lambda>k. toLowerCase k = ''cookie'') (keys H) = Some k"
  shows "cookiesAfter (processHeaders H C) = assign C (parseRawCookies (the (map_of H k)))"
    and "set (keys (processedHeaders (processHeaders H C))) \<subseteq> set (keys H) - {k}"
  using assms by (auto simp: processHeaders_def Let_def keys_delete split: option.splits)

lemma processedHeaders_subset: "set (processedHeaders (processHeaders H C)) \<subseteq> set H"
  by (auto simp: processHeaders_def Let_def AList.delete_eq split: option.splits)

lemma processHeaders_keeps_other_entries:
  assumes "toLowerCase k \<noteq> ''cookie''" and "toLowerCase k \<noteq> ''accept-encoding''"
  shows "map_of (processedHeaders (processHeaders H C)) k = map_of H k"
proof -
  have a: "\<And>P ks x. find P ks = Some x \<Longrightarrow> P x" by (auto simp: find_Some_iff)
  show ?thesis using assms
    by (auto simp: processHeaders_def Let_def delete_conv' dest!: a split: option.splits)
qed

text \<open>
  Claim C1, as the code has it. If some key of the header mapping equals \<open>cookie\<close> without
  regard to case, the first such key \<open>k\<close> is found, its value is parsed with the raw cookie
  grammar and the pairs are written into the cookie mapping with \<open>Object.assign\<close>: a pair
  from the header replaces an entry of the cookie mapping under the same name, entries
  under other names stay, and \<open>k\<close> is not a key of the returned headers. An explicit
  \<open>{a: 99}\<close> with a header \<open>Cookie: a=1\<close> ends as \<open>a: 1\<close>.
\<close>

theorem processHeaders_cookie_header_overrides:
  assumes "k' \<in> set (keys H)" and "toLowerCase k' = ''cookie''"
  shows "(\<exists>k v. find (\<lambda>k. toLowerCase k = ''cookie'') (keys H) = Some k
            \<and> toLowerCase k = ''cookie'' \<and> map_of H k = Some v
            \<and> map_of (cookiesAfter (processHeaders H C)) = map_of C ++ map_of (parseRawCookies v)
            \<and> k \<notin> set (keys (processedHeaders (processHeaders H C))))
         \<and> map_of (cookiesAfter (processHeaders [(''Cookie'', ''a=1'')] [(''a'', ''99'')])) ''a'' = Some ''1''"
proof
  from assms obtain k where f: "find (\<lambda>k. toLowerCase k = ''cookie'') (keys H) = Some k"
    using find_exists [of k' "keys H" "\<lambda>k. toLowerCase k = ''cookie''"] by blast
  then have k: "k \<in> set (keys H)" "toLowerCase k = ''cookie''"
    using find_in_keys [OF f] by simp_all
  then obtain v where v: "map_of H k = Some v" using map_of_defined by blast
  have "map_of (cookiesAfter (processHeaders H C)) = map_of C ++ map_of (parseRawCookies v)"
    using processHeaders_cookie_header(1) [OF f, of C] v
    by (simp add: map_of_assign_cookies)
  moreover have "k \<notin> set (keys (processedHeaders (processHeaders H C)))"
    using processHeaders_cookie_header(2) [OF f, of C] by blast
  ultimately show "\<exists>k v. find (\<lambda>k. toLowerCase k = ''cookie'') (keys H) = Some k
            \<and> toLowerCase k = ''cookie'' \<and> map_of H k = Some v
            \<and> map_of (cookiesAfter (processHeaders H C)) = map_of C ++ map_of (parseRawCookies v)
            \<and> k \<notin> set (keys (processedHeaders (processHeaders H C)))"
    using f k v by blast
next
  show "map_of (cookiesAfter (processHeaders [(''Cookie'', ''a=1'')] [(''a'', ''99'')])) ''a'' = Some ''1''"
    by code_simp
qed

theorem processHeaders_cookie_header_overrides_witness:
  "map_of (cookiesAfter (processHeaders [(''X-Id'', ''7''), (''COOKIE'', ''a=1; b=2'')] [(''a'', ''99''), (''c'', ''3'')])) ''a'' = Some ''1''
   \<and> map_of (cookiesAfter (processHeaders [(''X-Id'', ''7''), (''COOKIE'', ''a=1; b=2'')] [(''a'', ''99''), (''c'', ''3'')])) ''c'' = Some ''3''
   \<and> ''COOKIE'' \<notin> set (keys (processedHeaders (processHeaders [(''X-Id'', ''7''), (''COOKIE'', ''a=1; b=2'')] [(''a'', ''99''), (''c'', ''3'')])))"
proof -
  let ?H = "[(''X-Id'', ''7''), (''COOKIE'', ''a=1; b=2'')]"
  let ?C = "[(''a'', ''99''), (''c'', ''3'')]"
  have m: "''COOKIE'' \<in> set (keys ?H)" by (simp add: keys_def)
  have l: "toLowerCase ''COOKIE'' = ''cookie''" by code_simp
  have f: "find (\<lambda>k. toLowerCase k = ''cookie'') (keys ?H) = Some ''COOKIE''" by code_simp
  have p: "parseRawCookies ''a=1; b=2'' = [(''a'', ''1''), (''b'', ''2'')]" by code_simp
  from processHeaders_cookie_header_overrides [OF m l, of ?C] f p
  show ?thesis by auto
qed

text \<open>
  The claim as the specification words it, that the explicit value \<open>99\<close> survives, fails on
  that input.
\<close>

theorem explicit_cookie_does_not_win:
  "map_of (cookiesAfter (processHeaders [(''Cookie'', ''a=1'')] [(''a'', ''99'')])) ''a'' \<noteq> Some ''99''"
  by code_simp

text \<open>
  Claim C2, as the code has it. The call leaves the cookie mapping it was given as it was
  when no header key equals \<open>cookie\<close> without regard to case. When one does, the call
  writes the pairs parsed from that header into the cookie mapping: afterwards every such
  pair is an entry of it, and the entries under all other names are those it had before.
\<close>

theorem processHeaders_effect_on_cookies:
  "(find (\<lambda>k. toLowerCase k = ''cookie'') (keys H) = None \<longrightarrow> cookiesAfter (processHeaders H C) = C)
   \<and> (\<forall>k v. find (\<lambda>k. toLowerCase k = ''cookie'') (keys H) = Some k \<and> map_of H k = Some v \<longrightarrow>
         cookiesAfter (processHeaders H C) = assign C (parseRawCookies v)
         \<and> (\<forall>c. c \<notin> set (keys (parseRawCookies v)) \<longrightarrow>
                map_of (cookiesAfter (processHeaders H C)) c = map_of C c)
         \<and> (\<forall>c w. map_of (parseRawCookies v) c = Some w \<longrightarrow>
                map_of (cookiesAfter (processHeaders H C)) c = Some w))"
proof (intro conjI impI allI)
  assume "find (\<lambda>k. toLowerCase k = ''cookie'') (keys H) = None"
  then show "cookiesAfter (processHeaders H C) = C" by (rule processHeaders_no_cookie_header)
next
  fix k v
  assume a: "find (\<lambda>k. toLowerCase k = ''cookie'') (keys H) = Some k \<and> map_of H k = Some v"
  then show e: "cookiesAfter (processHeaders H C) = assign C (parseRawCookies v)"
    using processHeaders_cookie_header(1) [of H k C] by simp
  have m: "map_of (cookiesAfter (processHeaders H C)) = map_of C ++ map_of (parseRawCookies v)"
    by (simp only: e map_of_assign_cookies)
  { fix c assume "c \<notin> set (keys (parseRawCookies v))"
    then have "map_of (parseRawCookies v) c = None"
      by (simp add: keys_def map_of_eq_None_iff)
    then show "map_of (cookiesAfter (processHeaders H C)) c = map_of C c"
      by (simp add: m map_add_def) }
  { fix c w assume "map_of (parseRawCookies v) c = Some w"
    then show "map_of (cookiesAfter (processHeaders H C)) c = Some w"
      by (simp add: m map_add_def) }
qed

theorem processHeaders_effect_on_cookies_witness:
  "cookiesAfter (processHeaders [(''Accept'', ''*/*'')] [(''a'', ''99'')]) = [(''a'', ''99'')]
   \<and> cookiesAfter (processHeaders [(''cookie'', ''b=2'')] [(''a'', ''99'')]) = [(''a'', ''99''), (''b'', ''2'')]"
proof -
  have n: "find (\<lambda>k. toLowerCase k = ''cookie'') (keys [(''Accept'', ''*/*'')]) = None" by code_simp
  have f: "find (\<lambda>k. toLowerCase k = ''cookie'') (keys [(''cookie'', ''b=2'')]) = Some ''cookie''" by code_simp
  have a: "assign [(''a'', ''99'')] (parseRawCookies ''b=2'') = [(''a'', ''99''), (''b'', ''2'')]" by code_simp
  from processHeaders_effect_on_cookies [of "[(''Accept'', ''*/*'')]" "[(''a'', ''99'')]"] n
  have 1: "cookiesAfter (processHeaders [(''Accept'', ''*/*'')] [(''a'', ''99'')]) = [(''a'', ''99'')]" by blast
  from processHeaders_effect_on_cookies [of "[(''cookie'', ''b=2'')]" "[(''a'', ''99'')]"] f
  have "cookiesAfter (processHeaders [(''cookie'', ''b=2'')] [(''a'', ''99'')]) = assign [(''a'', ''99'')] (parseRawCookies ''b=2'')"
    by simp
  with 1 a show ?thesis by simp
qed

text \<open>
  The cookie mapping argument does not always hold the same entries after the call: an
  empty one is not empty afterwards.
\<close>

theorem processHeaders_changes_cookie_argument:
  "cookiesAfter (processHeaders [(''Cookie'', ''a=1'')] []) \<noteq> []"
  by code_simp

text \<open>
  Claim C7. \<open>find\<close> yields the first matching key only, so of two keys that differ in
  case alone the second stays in the returned headers: a mapping with \<open>Cookie\<close> and
  \<open>cookie\<close>, \<open>Accept-Encoding\<close> and \<open>accept-encoding\<close> comes back with \<open>cookie\<close> and
  \<open>accept-encoding\<close> still in it.
\<close>

theorem processHeaders_leaves_second_case_variant:
  "processedHeaders (processHeaders
      [(''Cookie'', ''a=1''), (''cookie'', ''b=2''), (''Accept-Encoding'', ''gzip''),
       (''accept-encoding'', ''br''), (''Accept'', ''*/*'')] [])
   = [(''cookie'', ''b=2''), (''accept-encoding'', ''br''), (''Accept'', ''*/*'')]
   \<and> toLowerCase ''cookie'' = ''cookie'' \<and> toLowerCase ''accept-encoding'' = ''accept-encoding''"
  by code_simp


section \<open>The header grammars\<close>

lemma startsWith_take: "startsWith s c \<longleftrightarrow> take 1 s = [c]"
  by (cases s) (simp_all add: startsWith_def)

lemma colonLine_eq:
  "colonLine h line =
     (if CHR '':'' \<in> set line \<and> \<not> key_discarded (keyOf line)
      then setProperty (keyOf line) (valueOf line) h else h)"
proof (cases "CHR '':'' \<in> set line")
  case False
  then show ?thesis by (simp add: colonLine_def indexOf_notin)
next
  case True
  let ?n = "length (takeWhile (\<lambda>c. c \<noteq> CHR '':'') line)"
  have i: "indexOf (CHR '':'') line = int ?n" using True by (rule indexOf_in)
  have le: "?n \<le> length line" by (rule length_takeWhile_le)
  have a: "slice line 0 (int ?n) = takeWhile (\<lambda>c. c \<noteq> CHR '':'') line"
    using slice_prefix [OF le] by (simp only: takeWhile_eq_take [symmetric])
  have "int ?n + 1 = int (Suc ?n)" by simp
  then have b: "sliceFrom line (int ?n + 1) = tl (dropWhile (\<lambda>c. c \<noteq> CHR '':'') line)"
    using sliceFrom_drop [of line "Suc ?n"] by (simp only: drop_takeWhile_tl)
  show ?thesis using True
    by (simp add: colonLine_def i a b Let_def keyOf_def valueOf_def key_discarded_def
        includes_chr_def startsWith_take)
qed

lemma colon_entries_spec_eq:
  "colon_entries_spec ls =
     map (\<lambda>l. (keyOf l, valueOf l)) (filter (\<lambda>l. CHR '':'' \<in> set l \<and> \<not> key_discarded (keyOf l)) ls)"
  by (induction ls) (simp_all add: colon_entries_spec_def keyOf_def valueOf_def)

lemma map_of_colon_form:
  "map_of (foldl colonLine [] ls) = map_of (rev (settable (colon_entries_spec ls)))"
proof -
  have f: "''__proto__'' \<notin> set (keys [])" by (simp add: keys_def)
  have s: "\<And>h l. colonLine h l =
      (if CHR '':'' \<in> set l \<and> \<not> key_discarded (keyOf l)
       then setProperty (fst (keyOf l, valueOf l)) (snd (keyOf l, valueOf l)) h else h)"
    by (simp add: colonLine_eq)
  from map_of_foldl_setProperty [of colonLine
      "\<lambda>l. CHR '':'' \<in> set l \<and> \<not> key_discarded (keyOf l)" "\<lambda>l. (keyOf l, valueOf l)" "[]" ls, OF s f]
  show ?thesis by (simp add: colon_entries_spec_eq)
qed

lemma line_pairs_drop:
  "i + 1 < length ls \<Longrightarrow> line_pairs (drop i ls) = (ls ! i, ls ! (i + 1)) # line_pairs (drop (i + 2) ls)"
proof -
  assume a: "i + 1 < length ls"
  then have "drop i ls = ls ! i # drop (Suc i) ls" by (simp add: Cons_nth_drop_Suc)
  moreover from a have "drop (Suc i) ls = ls ! (Suc i) # drop (Suc (Suc i)) ls"
    by (simp add: Cons_nth_drop_Suc)
  ultimately show ?thesis by simp
qed

lemma line_pairs_short: "length ls \<le> 1 \<Longrightarrow> line_pairs ls = []"
  by (cases ls rule: line_pairs.cases) simp_all

lemma alternatingLines_eq:
  "alternatingLines ls i h = foldl pairStep h (line_pairs (drop i ls))"
proof (induction ls i h rule: alternatingLines.induct)
  case (1 ls i h)
  show ?case
  proof (cases "i + 1 < length ls")
    case False
    then have "line_pairs (drop i ls) = []" by (intro line_pairs_short) simp
    with False show ?thesis by (subst alternatingLines.simps) simp
  next
    case True
    let ?key = "removeQuotes (trim (ls ! i))"
    have lp: "line_pairs (drop i ls) = (ls ! i, ls ! (i + 1)) # line_pairs (drop (i + 2) ls)"
      using True by (rule line_pairs_drop)
    have c: "(includes_chr ?key (CHR '' '') \<or> startsWith ?key (CHR '':'') \<or> ?key = []) = key_discarded ?key"
      by (auto simp: key_discarded_def includes_chr_def startsWith_take)
    show ?thesis
    proof (cases "key_discarded ?key")
      case d: True
      have "alternatingLines ls i h = alternatingLines ls (i + 2) h"
        using True d c by (subst alternatingLines.simps) (simp add: Let_def)
      also have "\<dots> = foldl pairStep h (line_pairs (drop (i + 2) ls))"
        using "1.IH"(1) [OF _ _ refl refl refl] True d c by simp
      finally have e: "alternatingLines ls i h = foldl pairStep h (line_pairs (drop (i + 2) ls))" .
      have ps: "pairStep h (ls ! i, ls ! (i + 1)) = h" using d by (simp add: pairStep_def)
      show ?thesis by (simp only: e lp foldl_Cons ps)
    next
      case d: False
      have "alternatingLines ls i h = alternatingLines ls (i + 2) (setProperty ?key (trim (ls ! (i + 1))) h)"
        using True d c by (subst alternatingLines.simps) (simp add: Let_def)
      also have "\<dots> = foldl pairStep (setProperty ?key (trim (ls ! (i + 1))) h) (line_pairs (drop (i + 2) ls))"
        using "1.IH"(2) [OF _ _ refl refl refl] True d c by simp
      finally have e: "alternatingLines ls i h =
          foldl pairStep (setProperty ?key (trim (ls ! (i + 1))) h) (line_pairs (drop (i + 2) ls))" .
      have ps: "pairStep h (ls ! i, ls ! (i + 1)) = setProperty ?key (trim (ls ! (i + 1))) h"
        using d by (simp add: pairStep_def)
      show ?thesis by (simp only: e lp foldl_Cons ps)
    qed
  qed
qed

lemma alternating_entries_spec_eq:
  "alternating_entries_spec ls =
     map (\<lambda>p. (removeQuotes (trim (fst p)), trim (snd p)))
       (filter (\<lambda>p. \<not> key_discarded (removeQuotes (trim (fst p)))) (line_pairs ls))"
  unfolding alternating_entries_spec_def
  by (induction "line_pairs ls" arbitrary: ls) (auto simp: case_prod_beta filter_map comp_def)

lemma map_of_alternating_form:
  "map_of (alternatingLines ls 0 []) = map_of (rev (settable (alternating_entries_spec ls)))"
proof -
  have f: "''__proto__'' \<notin> set (keys [])" by (simp add: keys_def)
  have s: "\<And>h p. pairStep h p =
      (if \<not> key_discarded (removeQuotes (trim (fst p)))
       then setProperty (fst (removeQuotes (trim (fst p)), trim (snd p)))
              (snd (removeQuotes (trim (fst p)), trim (snd p))) h else h)"
    by (simp add: pairStep_def)
  from map_of_foldl_setProperty [of pairStep
      "\<lambda>p. \<not> key_discarded (removeQuotes (trim (fst p)))"
      "\<lambda>p. (removeQuotes (trim (fst p)), trim (snd p))" "[]" "line_pairs ls", OF s f]
  show ?thesis by (simp add: alternating_entries_spec_eq alternatingLines_eq)
qed

lemma hasColons_iff: "list_ex (\<lambda>l. includes_chr l (CHR '':'')) ls \<longleftrightarrow> (\<exists>l\<in>set ls. CHR '':'' \<in> set l)"
  by (simp add: list_ex_iff includes_chr_def)

lemma line_pairs_unpaired: "even (length ls) \<Longrightarrow> line_pairs (ls @ [x]) = line_pairs ls"
  by (induction ls rule: line_pairs.induct) simp_all

lemma colon_not_space: "\<not> isWhiteSpace (CHR '':'')"
  by (simp add: isWhiteSpace_def)

lemma trim_lstrip: "trim (dropWhile isWhiteSpace s) = trim s"
  by (simp add: trim_def)

lemma trim_around_colon:
  "trim (a @ CHR '':'' # b) =
     dropWhile isWhiteSpace a @ CHR '':'' # rev (dropWhile isWhiteSpace (rev b))"
proof -
  have 1: "dropWhile isWhiteSpace (a @ CHR '':'' # b) = dropWhile isWhiteSpace a @ CHR '':'' # b"
    using colon_not_space by (induction a) simp_all
  have 2: "dropWhile isWhiteSpace (rev b @ CHR '':'' # rev (dropWhile isWhiteSpace a)) =
           dropWhile isWhiteSpace (rev b) @ CHR '':'' # rev (dropWhile isWhiteSpace a)"
    using colon_not_space by (induction "rev b" arbitrary: b) (simp_all add: dropWhile_append3)
  show ?thesis unfolding trim_def 1 by (simp add: 2)
qed

lemma takeWhile_until: "c \<notin> set xs \<Longrightarrow> takeWhile (\<lambda>x. x \<noteq> c) (xs @ c # ys) = xs"
  by (induction xs) auto

lemma dropWhile_until: "c \<notin> set xs \<Longrightarrow> dropWhile (\<lambda>x. x \<noteq> c) (xs @ c # ys) = c # ys"
  by (induction xs) auto

lemma keyOf_trimmed_line:
  "CHR '':'' \<notin> set a \<Longrightarrow> keyOf (trim (a @ CHR '':'' # b)) = removeQuotes (trim a)"
proof -
  assume a: "CHR '':'' \<notin> set a"
  then have "CHR '':'' \<notin> set (dropWhile isWhiteSpace a)"
    by (blast dest: set_dropWhileD)
  then have "takeWhile (\<lambda>c. c \<noteq> CHR '':'')
               (dropWhile isWhiteSpace a @ CHR '':'' # rev (dropWhile isWhiteSpace (rev b))) =
             dropWhile isWhiteSpace a"
    by (rule takeWhile_until)
  then show ?thesis by (simp add: keyOf_def trim_around_colon trim_lstrip)
qed

lemma valueOf_trimmed_line:
  "CHR '':'' \<notin> set a \<Longrightarrow>
   valueOf (trim (a @ CHR '':'' # b)) = trim (rev (dropWhile isWhiteSpace (rev b)))"
proof -
  assume a: "CHR '':'' \<notin> set a"
  then have "CHR '':'' \<notin> set (dropWhile isWhiteSpace a)"
    by (blast dest: set_dropWhileD)
  then have "dropWhile (\<lambda>c. c \<noteq> CHR '':'')
               (dropWhile isWhiteSpace a @ CHR '':'' # rev (dropWhile isWhiteSpace (rev b))) =
             CHR '':'' # rev (dropWhile isWhiteSpace (rev b))"
    by (rule dropWhile_until)
  then show ?thesis by (simp add: valueOf_def trim_around_colon)
qed

lemma colon_in_trimmed_line: "CHR '':'' \<in> set (trim (a @ CHR '':'' # b))"
  by (simp add: trim_around_colon)

lemma dropWhile_hd_keep: "xs \<noteq> [] \<Longrightarrow> \<not> P (hd xs) \<Longrightarrow> dropWhile P xs = xs"
  by (cases xs) simp_all

lemma dropWhile_hd_shorter: "xs \<noteq> [] \<Longrightarrow> P (hd xs) \<Longrightarrow> length (dropWhile P xs) < length xs"
  by (cases xs) (simp_all add: length_dropWhile_le le_imp_less_Suc)

lemma trimmed_ends:
  "s \<noteq> [] \<Longrightarrow> \<not> isWhiteSpace (hd s) \<Longrightarrow> \<not> isWhiteSpace (last s) \<Longrightarrow> trim s = s"
proof -
  assume n: "s \<noteq> []" and h: "\<not> isWhiteSpace (hd s)" and l: "\<not> isWhiteSpace (last s)"
  from n h have 1: "dropWhile isWhiteSpace s = s" by (rule dropWhile_hd_keep)
  from n have r: "rev s \<noteq> []" by simp
  from l n have "\<not> isWhiteSpace (hd (rev s))" by (simp add: hd_rev)
  with r have 2: "dropWhile isWhiteSpace (rev s) = rev s" by (rule dropWhile_hd_keep)
  show ?thesis unfolding trim_def 1 2 by simp
qed

lemma trimmed_ends_conv:
  assumes "trim s = s" and "s \<noteq> []"
  shows "\<not> isWhiteSpace (hd s) \<and> \<not> isWhiteSpace (last s)"
proof -
  have len: "length (trim s) \<le> length (dropWhile isWhiteSpace s)"
    using length_dropWhile_le [of isWhiteSpace "rev (dropWhile isWhiteSpace s)"]
    by (simp add: trim_def)
  have h: "\<not> isWhiteSpace (hd s)"
  proof
    assume "isWhiteSpace (hd s)"
    with assms(2) have "length (dropWhile isWhiteSpace s) < length s"
      by (rule dropWhile_hd_shorter)
    with len assms(1) show False by simp
  qed
  with assms(2) have 1: "dropWhile isWhiteSpace s = s" by (rule dropWhile_hd_keep)
  from assms(1) have "rev (dropWhile isWhiteSpace (rev s)) = s" unfolding trim_def 1 .
  then have "rev (rev (dropWhile isWhiteSpace (rev s))) = rev s" by (rule arg_cong)
  then have 2: "dropWhile isWhiteSpace (rev s) = rev s" by (simp only: rev_rev_ident)
  from assms(2) have r: "rev s \<noteq> []" by simp
  have "\<not> isWhiteSpace (last s)"
  proof
    assume "isWhiteSpace (last s)"
    with assms(2) have "isWhiteSpace (hd (rev s))" by (simp add: hd_rev)
    with r have "length (dropWhile isWhiteSpace (rev s)) < length (rev s)"
      by (rule dropWhile_hd_shorter)
    with 2 show False by simp
  qed
  with h show ?thesis by simp
qed

lemma quote_chars_not_space: "\<not> isWhiteSpace (CHR 0x27)" "\<not> isWhiteSpace (CHR 0x22)"
  by (simp_all add: isWhiteSpace_def)

lemma quotes_not_space: "quotes q \<Longrightarrow> c \<in> set q \<Longrightarrow> \<not> isWhiteSpace c"
proof -
  assume "quotes q" and "c \<in> set q"
  then have "c = CHR 0x27 \<or> c = CHR 0x22" unfolding quotes_def by blast
  then show ?thesis using quote_chars_not_space by blast
qed

lemma removeQuotes_quotes: "quotes q \<Longrightarrow> removeQuotes q = []"
  unfolding quotes_def removeQuotes_def filter_empty_conv by blast

lemma trim_quoted:
  assumes "quotes q1" and "quotes q2" and "trim k = k"
  shows "trim (q1 @ k @ q2) = q1 @ k @ q2"
proof (cases "q1 @ k @ q2 = []")
  case True
  then show ?thesis by (simp add: trim_def)
next
  case False
  have kk: "k \<noteq> [] \<Longrightarrow> \<not> isWhiteSpace (hd k) \<and> \<not> isWhiteSpace (last k)"
    using trimmed_ends_conv [OF assms(3)] by simp
  have h: "\<not> isWhiteSpace (hd (q1 @ k @ q2))"
  proof (cases "q1 = []")
    case q1: False
    then have "hd (q1 @ k @ q2) \<in> set q1" by simp
    then show ?thesis by (rule quotes_not_space [OF assms(1)])
  next
    case q1: True
    show ?thesis
    proof (cases "k = []")
      case k: False
      then show ?thesis using kk q1 by simp
    next
      case k: True
      with q1 False have "q2 \<noteq> []" by simp
      then have "hd (q1 @ k @ q2) \<in> set q2" using k q1 by simp
      then show ?thesis by (rule quotes_not_space [OF assms(2)])
    qed
  qed
  have l: "\<not> isWhiteSpace (last (q1 @ k @ q2))"
  proof (cases "q2 = []")
    case q2: False
    then have "last (q1 @ k @ q2) \<in> set q2" by simp
    then show ?thesis by (rule quotes_not_space [OF assms(2)])
  next
    case q2: True
    show ?thesis
    proof (cases "k = []")
      case k: False
      then show ?thesis using kk q2 by simp
    next
      case k: True
      with q2 False have "q1 \<noteq> []" by simp
      then have "last (q1 @ k @ q2) \<in> set q1" using k q2 by simp
      then show ?thesis by (rule quotes_not_space [OF assms(1)])
    qed
  qed
  from False h l show ?thesis by (rule trimmed_ends)
qed

lemma removeQuotes_quoted:
  "quotes q1 \<Longrightarrow> quotes q2 \<Longrightarrow> removeQuotes (q1 @ k @ q2) = removeQuotes k"
  using removeQuotes_quotes [of q1] removeQuotes_quotes [of q2] by (simp add: removeQuotes_def)

lemma blank_no_colon: "blank w \<Longrightarrow> CHR '':'' \<notin> set w"
  using colon_not_space by (auto simp: blank_def)

lemma quotes_no_colon: "quotes q \<Longrightarrow> CHR '':'' \<notin> set q"
  by (auto simp: quotes_def)

lemma quotes_no_newline: "quotes q \<Longrightarrow> CHR 0x0A \<notin> set q"
  by (auto simp: quotes_def)

lemma blank_no_newline: "blank w \<Longrightarrow> CHR 0x0A \<notin> set w"
  by (auto simp: blank_def)

lemma colonLine_decorated:
  assumes "decoration_ok e"
  shows "colonLine h (trim (decoratedLine e)) = colonLine h (trim (plainLine e))"
proof -
  obtain w1 q1 k q2 w2 v where e: "e = (w1, q1, k, q2, w2, v)" by (cases e)
  from assms e have ok: "blank w1" "blank w2" "quotes q1" "quotes q2" "trim k = k" "CHR '':'' \<notin> set k"
    by (simp_all add: decoration_ok_def)
  let ?a = "w1 @ (q1 @ k @ q2) @ w2"
  have d: "decoratedLine e = ?a @ CHR '':'' # v" by (simp add: e decoratedLine_def)
  have p: "plainLine e = k @ CHR '':'' # v" by (simp add: e plainLine_def)
  have na: "CHR '':'' \<notin> set ?a"
    using ok blank_no_colon quotes_no_colon by simp
  have "trim ?a = trim (q1 @ k @ q2)"
    using ok(1,2) by (intro trim_pad) (simp_all add: blank_def)
  also have "\<dots> = q1 @ k @ q2" using ok(3,4,5) by (rule trim_quoted)
  finally have ta: "removeQuotes (trim ?a) = removeQuotes (trim k)"
    using ok by (simp add: removeQuotes_quoted)
  have key: "keyOf (trim (decoratedLine e)) = keyOf (trim (plainLine e))"
    unfolding d p by (simp only: keyOf_trimmed_line [OF na] keyOf_trimmed_line [OF ok(6)] ta)
  have val: "valueOf (trim (decoratedLine e)) = valueOf (trim (plainLine e))"
    unfolding d p by (simp only: valueOf_trimmed_line [OF na] valueOf_trimmed_line [OF ok(6)])
  have c1: "CHR '':'' \<in> set (trim (decoratedLine e))" unfolding d by (rule colon_in_trimmed_line)
  have c2: "CHR '':'' \<in> set (trim (plainLine e))" unfolding p by (rule colon_in_trimmed_line)
  show ?thesis by (simp only: colonLine_eq key val c1 c2)
qed

lemma decorated_no_newline:
  "decoration_ok e \<Longrightarrow> CHR 0x0A \<notin> set (decoratedLine e) \<and> CHR 0x0A \<notin> set (plainLine e)"
  by (cases e) (auto simp: decoration_ok_def decoratedLine_def plainLine_def
      dest: blank_no_newline quotes_no_newline)

lemma decorated_has_colon:
  "CHR '':'' \<in> set (trim (decoratedLine e)) \<and> CHR '':'' \<in> set (trim (plainLine e))"
proof -
  obtain w1 q1 k q2 w2 v where e: "e = (w1, q1, k, q2, w2, v)" by (cases e)
  have d: "decoratedLine e = (w1 @ q1 @ k @ q2 @ w2) @ CHR '':'' # v" by (simp add: e decoratedLine_def)
  have p: "plainLine e = k @ CHR '':'' # v" by (simp add: e plainLine_def)
  show ?thesis unfolding d p by (simp only: colon_in_trimmed_line)
qed

lemma decorated_nonempty: "trim (decoratedLine e) \<noteq> []" "trim (plainLine e) \<noteq> []"
proof -
  from decorated_has_colon [of e] show "trim (decoratedLine e) \<noteq> []" by auto
  from decorated_has_colon [of e] show "trim (plainLine e) \<noteq> []" by auto
qed

lemma foldl_map_cong:
  "(\<And>x h. x \<in> set xs \<Longrightarrow> f h (g x) = f h (g' x)) \<Longrightarrow> foldl f h (map g xs) = foldl f h (map g' xs)"
  by (induction xs arbitrary: h) simp_all

lemma headerLines_of_lines:
  assumes "ls \<noteq> []" and "\<forall>l\<in>set ls. CHR 0x0A \<notin> set l" and "\<forall>l\<in>set ls. trim l \<noteq> []"
  shows "headerLines (join [CHR 0x0A] ls) = map trim ls"
proof -
  have "split_str (CHR 0x0A) (join [CHR 0x0A] ls) = ls"
    using assms(1,2) by (rule split_str_join)
  moreover have "filter (\<lambda>l. l \<noteq> []) (map trim ls) = map trim ls"
    using assms(3) by (simp add: filter_id_conv)
  ultimately show ?thesis by (simp add: headerLines_def)
qed

lemma parseRawHeaders_decorated:
  assumes "\<forall>e\<in>set es. decoration_ok e"
  shows "parseRawHeaders (join [CHR 0x0A] (map decoratedLine es)) =
         parseRawHeaders (join [CHR 0x0A] (map plainLine es))"
proof (cases "es = []")
  case True
  then show ?thesis by simp
next
  case False
  have hd: "headerLines (join [CHR 0x0A] (map decoratedLine es)) = map trim (map decoratedLine es)"
  proof (rule headerLines_of_lines)
    show "map decoratedLine es \<noteq> []" using False by simp
    show "\<forall>l\<in>set (map decoratedLine es). CHR 0x0A \<notin> set l"
      using assms decorated_no_newline by auto
    show "\<forall>l\<in>set (map decoratedLine es). trim l \<noteq> []"
      by (simp add: decorated_nonempty)
  qed
  have hp: "headerLines (join [CHR 0x0A] (map plainLine es)) = map trim (map plainLine es)"
  proof (rule headerLines_of_lines)
    show "map plainLine es \<noteq> []" using False by simp
    show "\<forall>l\<in>set (map plainLine es). CHR 0x0A \<notin> set l"
      using assms decorated_no_newline by auto
    show "\<forall>l\<in>set (map plainLine es). trim l \<noteq> []"
      by (simp add: decorated_nonempty)
  qed
  define e where "e = hd es"
  have e: "e \<in> set es" unfolding e_def using False by (rule hd_in_set)
  have cd: "list_ex (\<lambda>l. includes_chr l (CHR '':'')) (map trim (map decoratedLine es))"
    unfolding hasColons_iff using e decorated_has_colon [of e] by auto
  have cp: "list_ex (\<lambda>l. includes_chr l (CHR '':'')) (map trim (map plainLine es))"
    unfolding hasColons_iff using e decorated_has_colon [of e] by auto
  have "foldl colonLine [] (map (\<lambda>e. trim (decoratedLine e)) es) =
        foldl colonLine [] (map (\<lambda>e. trim (plainLine e)) es)"
    using assms by (intro foldl_map_cong) (simp add: colonLine_decorated)
  then show ?thesis
    unfolding parseRawHeaders_def hd hp Let_def using cd cp by (simp add: comp_def)
qed

lemma parseRawHeaders_colons:
  "\<exists>l\<in>set (headerLines raw). CHR '':'' \<in> set l \<Longrightarrow>
   map_of (parseRawHeaders raw) = map_of (rev (settable (colon_entries_spec (headerLines raw))))"
  by (simp add: parseRawHeaders_def Let_def hasColons_iff map_of_colon_form)

lemma parseRawHeaders_no_colons:
  "\<not> (\<exists>l\<in>set (headerLines raw). CHR '':'' \<in> set l) \<Longrightarrow>
   map_of (parseRawHeaders raw) = map_of (rev (settable (alternating_entries_spec (headerLines raw))))"
  by (simp add: parseRawHeaders_def Let_def hasColons_iff map_of_alternating_form)

lemma alternatingLines_unpaired:
  "even (length ls) \<Longrightarrow> alternatingLines (ls @ [x]) 0 h = alternatingLines ls 0 h"
  by (simp add: alternatingLines_eq line_pairs_unpaired)

text \<open>
  Claim C4, as the code has it. When some line has a colon, the header normalizer gives
  the mapping of the colon form: each line with a colon is split at its first colon, the
  left side trimmed and stripped of quotes is the key, the right side trimmed is the
  value, and keys with a space, empty keys and keys starting with a colon are dropped;
  a key \<open>__proto__\<close> adds no entry. Blanks before and after the key part of a line and
  quote characters directly around a key that has no white space at its own ends do not
  change the result: lines \<open>w1 q1 k q2 w2 : v\<close> give what the lines \<open>k : v\<close> give.
\<close>

theorem parseRawHeaders_colon_form:
  "((\<exists>l\<in>set (headerLines raw). CHR '':'' \<in> set l) \<longrightarrow>
      map_of (parseRawHeaders raw) = map_of (rev (settable (colon_entries_spec (headerLines raw)))))
   \<and> ((\<forall>e\<in>set es. decoration_ok e) \<longrightarrow>
      parseRawHeaders (join [CHR 0x0A] (map decoratedLine es)) =
      parseRawHeaders (join [CHR 0x0A] (map plainLine es)))"
  using parseRawHeaders_colons [of raw] parseRawHeaders_decorated [of es] by blast

theorem parseRawHeaders_colon_form_witness:
  "map_of (parseRawHeaders ''note\<newline> User-Agent : x y\<newline>:path: /\<newline>a b: c\<newline>Host: first\<newline>Host: example.com:80'') ''Host''
     = Some ''example.com:80''
   \<and> map_of (parseRawHeaders ''note\<newline> User-Agent : x y\<newline>:path: /\<newline>a b: c\<newline>Host: first\<newline>Host: example.com:80'') ''a b''
     = None
   \<and> parseRawHeaders ''  \"Host\"  : example.com\<newline>'Accept':*/*''
     = [(''Host'', ''example.com''), (''Accept'', ''*/*'')]"
proof -
  let ?raw = "''note\<newline> User-Agent : x y\<newline>:path: /\<newline>a b: c\<newline>Host: first\<newline>Host: example.com:80''"
  let ?es = "[(''  '', ''\"'', ''Host'', ''\"'', ''  '', '' example.com''),
              ('''', [CHR 0x27], ''Accept'', [CHR 0x27], '''', ''*/*'')]"
  have h1: "\<exists>l\<in>set (headerLines ?raw). CHR '':'' \<in> set l" by code_simp
  have h2: "\<forall>e\<in>set ?es. decoration_ok e" by code_simp
  have s1: "map_of (rev (settable (colon_entries_spec (headerLines ?raw)))) ''Host'' = Some ''example.com:80''"
    by code_simp
  have s2: "map_of (rev (settable (colon_entries_spec (headerLines ?raw)))) ''a b'' = None"
    by code_simp
  have d: "join [CHR 0x0A] (map decoratedLine ?es) = ''  \"Host\"  : example.com\<newline>'Accept':*/*''"
    by code_simp
  have p: "parseRawHeaders (join [CHR 0x0A] (map plainLine ?es)) = [(''Host'', ''example.com''), (''Accept'', ''*/*'')]"
    by code_simp
  from parseRawHeaders_colon_form [of ?raw ?es] h1 h2
  have 1: "map_of (parseRawHeaders ?raw) = map_of (rev (settable (colon_entries_spec (headerLines ?raw))))"
    and 2: "parseRawHeaders (join [CHR 0x0A] (map decoratedLine ?es)) =
            parseRawHeaders (join [CHR 0x0A] (map plainLine ?es))"
    by blast+
  show ?thesis unfolding 1 using s1 s2 2 d p by simp
qed

text \<open>
  The claim as the specification words it fails in two places. A line \<open>__proto__: x\<close> has
  the entry \<open>__proto__\<close> in the colon form and none in what the code returns. And white
  space between a quote character and the key is not surrounding white space for the
  code, which trims before it strips the quotes: the key of \<open>" Host": x\<close> keeps its
  space and the line is dropped, where \<open>Host: x\<close> gives an entry.
\<close>

theorem colon_form_loses_proto_and_spaced_quoted_key:
  "parseRawHeaders ''__proto__: x'' = []
   \<and> colon_entries_spec (headerLines ''__proto__: x'') = [(''__proto__'', ''x'')]
   \<and> parseRawHeaders ''\" Host\": x'' = []
   \<and> parseRawHeaders ''Host: x'' = [(''Host'', ''x'')]"
  by code_simp

text \<open>
  Claim C5, as the code has it. When no line has a colon, the header normalizer gives the
  mapping of the alternating form: the lines are read two by two as key and value, with
  the key validation of the colon form, and a pair whose key is \<open>__proto__\<close> adds no
  entry; a last line without a partner is dropped; and as soon as some line has a colon
  the result is that of the colon form instead.
\<close>

theorem parseRawHeaders_alternating_form:
  "(\<not> (\<exists>l\<in>set (headerLines raw). CHR '':'' \<in> set l) \<longrightarrow>
      map_of (parseRawHeaders raw) = map_of (rev (settable (alternating_entries_spec (headerLines raw)))))
   \<and> (even (length ls) \<longrightarrow> alternatingLines (ls @ [x]) 0 h = alternatingLines ls 0 h)
   \<and> ((\<exists>l\<in>set (headerLines raw). CHR '':'' \<in> set l) \<longrightarrow>
      map_of (parseRawHeaders raw) = map_of (rev (settable (colon_entries_spec (headerLines raw)))))"
  using parseRawHeaders_no_colons [of raw] alternatingLines_unpaired [of ls x h]
    parseRawHeaders_colons [of raw] by blast

theorem parseRawHeaders_alternating_form_witness:
  "map_of (parseRawHeaders ''User-Agent\<newline>x y\<newline>\"Host\"\<newline>example.com\<newline>bad key\<newline>v\<newline>trail'') ''Host''
     = Some ''example.com''
   \<and> map_of (parseRawHeaders ''User-Agent\<newline>x y\<newline>\"Host\"\<newline>example.com\<newline>bad key\<newline>v\<newline>trail'') ''bad key''
     = None
   \<and> alternatingLines [''Host'', ''example.com'', ''trail''] 0 [] = alternatingLines [''Host'', ''example.com''] 0 []
   \<and> map_of (parseRawHeaders ''Host\<newline>Accept: */*'') ''Accept'' = Some ''*/*''"
proof -
  let ?raw = "''User-Agent\<newline>x y\<newline>\"Host\"\<newline>example.com\<newline>bad key\<newline>v\<newline>trail''"
  let ?raw2 = "''Host\<newline>Accept: */*''"
  have h1: "\<not> (\<exists>l\<in>set (headerLines ?raw). CHR '':'' \<in> set l)" by code_simp
  have h2: "even (length [''Host'', ''example.com''])" by simp
  have h3: "\<exists>l\<in>set (headerLines ?raw2). CHR '':'' \<in> set l" by code_simp
  have s1: "map_of (rev (settable (alternating_entries_spec (headerLines ?raw)))) ''Host'' = Some ''example.com''"
    by code_simp
  have s2: "map_of (rev (settable (alternating_entries_spec (headerLines ?raw)))) ''bad key'' = None"
    by code_simp
  have s3: "map_of (rev (settable (colon_entries_spec (headerLines ?raw2)))) ''Accept'' = Some ''*/*''"
    by code_simp
  from parseRawHeaders_alternating_form [of ?raw "[''Host'', ''example.com'']" "''trail''" "[]"] h1 h2
  have 1: "map_of (parseRawHeaders ?raw) = map_of (rev (settable (alternating_entries_spec (headerLines ?raw))))"
    and 2: "alternatingLines ([''Host'', ''example.com''] @ [''trail'']) 0 [] =
            alternatingLines [''Host'', ''example.com''] 0 []"
    by blast+
  from parseRawHeaders_alternating_form [of ?raw2 "[]" "[]" "[]"] h3
  have 3: "map_of (parseRawHeaders ?raw2) = map_of (rev (settable (colon_entries_spec (headerLines ?raw2))))"
    by blast
  show ?thesis unfolding 1 3 using s1 s2 s3 2 by simp
qed

text \<open>
  The claim as the specification words it, with an entry for every pair of lines whose key
  passes the validation, fails where the key line is \<open>__proto__\<close>: the alternating form
  pairs it with the next line, the code creates no entry for it.
\<close>

theorem alternating_form_loses_proto:
  "parseRawHeaders ''__proto__\<newline>x'' = []
   \<and> alternating_entries_spec (headerLines ''__proto__\<newline>x'') = [(''__proto__'', ''x'')]"
  by code_simp


section \<open>The links of a page\<close>

lemma collectLinks_foldl:
  "foldl (\<lambda>links href.
            if href \<noteq> [] then (case nu href base of Some u \<Rightarrow> links @ [u] | None \<Rightarrow> links)
            else links) acc hs =
   acc @ List.map_filter (\<lambda>href. if href \<noteq> [] then nu href base else None) hs"
  by (induction hs arbitrary: acc) (auto simp: List.map_filter_simps split: option.splits)

lemma collectLinks_eq:
  "collectLinks nu base hs = List.map_filter (\<lambda>href. if href \<noteq> [] then nu href base else None) hs"
  unfolding collectLinks_def by (simp only: collectLinks_foldl append_Nil)

lemma linksOfPage_eq: "linksOfPage h pg = resolved_hrefs h pg"
  by (simp only: linksOfPage_def resolved_hrefs_def collectLinks_eq)

lemma set_resolved_hrefs:
  "set (resolved_hrefs h pg) =
     {u. \<exists>href\<in>set (hrefs pg). href \<noteq> [] \<and> newURL h href (requestUrl pg) = Some u}"
proof -
  have "\<And>hs. set (List.map_filter (\<lambda>href. if href \<noteq> [] then newURL h href (requestUrl pg) else None) hs) =
      {u. \<exists>href\<in>set hs. href \<noteq> [] \<and> newURL h href (requestUrl pg) = Some u}"
  proof -
    fix hs
    show "set (List.map_filter (\<lambda>href. if href \<noteq> [] then newURL h href (requestUrl pg) else None) hs) =
      {u. \<exists>href\<in>set hs. href \<noteq> [] \<and> newURL h href (requestUrl pg) = Some u}"
      by (induction hs) (auto simp: List.map_filter_simps split: option.splits)
  qed
  then show ?thesis by (simp only: resolved_hrefs_def)
qed

lemma setInOrder_foldl:
  "foldl (\<lambda>acc x. if x \<in> set acc then acc else acc @ [x]) acc xs =
   acc @ first_occurrences (filter (\<lambda>x. x \<notin> set acc) xs)"
proof (induction xs arbitrary: acc)
  case Nil
  then show ?case by simp
next
  case (Cons x xs)
  show ?case
  proof (cases "x \<in> set acc")
    case True
    then show ?thesis by (simp add: Cons.IH)
  next
    case False
    have f: "filter (\<lambda>y. y \<notin> set (acc @ [x])) xs = filter (\<lambda>y. y \<noteq> x) (filter (\<lambda>y. y \<notin> set acc) xs)"
      by (induction xs) auto
    have "foldl (\<lambda>acc x. if x \<in> set acc then acc else acc @ [x]) acc (x # xs) =
          (acc @ [x]) @ first_occurrences (filter (\<lambda>y. y \<notin> set (acc @ [x])) xs)"
      using False by (simp only: foldl_Cons if_False Cons.IH)
    also have "\<dots> = acc @ x # first_occurrences (filter (\<lambda>y. y \<noteq> x) (filter (\<lambda>y. y \<notin> set acc) xs))"
      by (simp only: f append_assoc append_Cons append_Nil)
    also have "\<dots> = acc @ first_occurrences (filter (\<lambda>y. y \<notin> set acc) (x # xs))"
      using False by simp
    finally show ?thesis .
  qed
qed

lemma setInOrder_eq: "setInOrder xs = first_occurrences xs"
  unfolding setInOrder_def by (simp add: setInOrder_foldl)

lemma set_first_occurrences: "set (first_occurrences xs) = set xs"
  by (induction xs rule: first_occurrences.induct) auto

lemma distinct_first_occurrences: "distinct (first_occurrences xs)"
  by (induction xs rule: first_occurrences.induct) (auto simp: set_first_occurrences)

lemma uniqueLinks_eq:
  "uniqueLinks h pages = first_occurrences (concat (map (resolved_hrefs h) pages))"
proof -
  have "map (linksOfPage h) pages = map (resolved_hrefs h) pages"
    by (simp add: linksOfPage_eq)
  then show ?thesis by (simp only: uniqueLinks_def setInOrder_eq)
qed

lemma set_uniqueLinks:
  "set (uniqueLinks h pages) =
     {u. \<exists>pg\<in>set pages. \<exists>href\<in>set (hrefs pg). href \<noteq> [] \<and> newURL h href (requestUrl pg) = Some u}"
  unfolding uniqueLinks_eq set_first_occurrences
  by (auto simp: set_resolved_hrefs)

lemma tryBlock_extractLinks:
  assumes "getNodeParameters h i = Inr p" and "param_operation p = ''extractLinks''"
    and "itemProxy h p = Inr pc" and "runCrawler h (itemRequest h p pc (Some 100)) = Inr pages"
  shows "tryBlock h i st =
     Inr (st\<lparr>fetchLog := fetchLog st @ [itemRequest h p pc (Some 100)],
             returnData := returnData st @
               [resultRecord ''Crawling finished'' (param_url p) (Links (uniqueLinks h pages))]\<rparr>)"
  using assms by (simp add: tryBlock_def Let_def)

section \<open>The loop over the items\<close>

lemma execLoop_done: "\<not> i < length (items st) \<Longrightarrow> execLoop fuel h i st = Some (Inr st)"
  by (subst execLoop.simps) simp

lemma execLoop_no_fuel: "i < length (items st) \<Longrightarrow> execLoop 0 h i st = None"
  by (subst execLoop.simps) simp

lemma execLoop_step:
  "i < length (items st) \<Longrightarrow>
   execLoop (Suc fuel) h i st =
     (case tryBlock h i st of
        Inr st' \<Rightarrow> execLoop fuel h (i + 1) st'
      | Inl (e, st') \<Rightarrow>
          (case catchBlock h i e st' of
             Inl e' \<Rightarrow> Some (Inl e')
           | Inr st'' \<Rightarrow> execLoop fuel h (i + 1) st''))"
  by (subst execLoop.simps) simp

lemma execute_single:
  assumes "getInputData h 0 = Inr [x]"
    and "tryBlock h 0 \<lparr>items = [x], returnData = [], fetchLog = []\<rparr> = Inr st'"
    and "items st' = [x]"
  shows "execute (Suc 0) h = Some (Inr [returnData st'])"
proof -
  let ?st = "\<lparr>items = [x], returnData = [], fetchLog = []\<rparr>"
  have "execLoop (Suc 0) h 0 ?st = execLoop 0 h (0 + 1) st'"
    using assms(2) by (simp add: execLoop_step)
  also have "\<dots> = Some (Inr st')" using assms(3) by (simp add: execLoop_done)
  finally show ?thesis using assms(1) by (simp add: execute_def)
qed

text \<open>
  Claim C8. When the crawler of \<open>extractLinks\<close> has run, the iteration appends one record
  whose links field is what \<open>[...new Set(crawledData.flatMap(item => item.links))]\<close>
  gives: for every fetched page the \<open>href\<close> of every anchor with a non-empty \<open>href\<close>,
  resolved against the URL of the request, those whose resolution throws left out, each
  URL once and in the order of its first occurrence. It is the record \<open>execute\<close> returns
  for a batch of one item. A page with the anchors \<open>/x\<close>, \<open>http://y.com\<close> and \<open>/x\<close>
  again gives exactly two URLs.
\<close>

theorem extractLinks_unique_in_order:
  assumes "getNodeParameters h i = Inr p" and "param_operation p = ''extractLinks''"
    and "itemProxy h p = Inr pc" and "runCrawler h (itemRequest h p pc (Some 100)) = Inr pages"
  shows "\<exists>L. tryBlock h i st =
           Inr (st\<lparr>fetchLog := fetchLog st @ [itemRequest h p pc (Some 100)],
                   returnData := returnData st @
                     [\<lparr>json = ResultJson ''success'' ''Crawling finished'' (param_url p) (Links L),
                       error = None, pairedItem = None\<rparr>]\<rparr>)
         \<and> (i = 0 \<and> getInputData h 0 = Inr [x] \<longrightarrow>
              execute (Suc 0) h =
                Some (Inr [[\<lparr>json = ResultJson ''success'' ''Crawling finished'' (param_url p) (Links L),
                             error = None, pairedItem = None\<rparr>]]))
         \<and> L = first_occurrences (concat (map (resolved_hrefs h) pages))
         \<and> distinct L
         \<and> set L = {u. \<exists>pg\<in>set pages. \<exists>href\<in>set (hrefs pg).
                          href \<noteq> [] \<and> newURL h href (requestUrl pg) = Some u}
         \<and> (\<forall>pg a b. pages = [pg] \<and> hrefs pg = [''/x'', ''http://y.com'', ''/x'']
                \<and> newURL h ''/x'' (requestUrl pg) = Some a
                \<and> newURL h ''http://y.com'' (requestUrl pg) = Some b \<and> a \<noteq> b
              \<longrightarrow> L = [a, b])"
proof -
  let ?L = "uniqueLinks h pages"
  let ?r = "\<lparr>json = ResultJson ''success'' ''Crawling finished'' (param_url p) (Links ?L),
             error = None, pairedItem = None\<rparr>"
  have t: "\<And>st. tryBlock h i st =
      Inr (st\<lparr>fetchLog := fetchLog st @ [itemRequest h p pc (Some 100)],
              returnData := returnData st @ [?r]\<rparr>)"
    using tryBlock_extractLinks [OF assms] by (simp add: resultRecord_def)
  have e: "i = 0 \<and> getInputData h 0 = Inr [x] \<longrightarrow> execute (Suc 0) h = Some (Inr [[?r]])"
  proof
    assume a: "i = 0 \<and> getInputData h 0 = Inr [x]"
    let ?st = "\<lparr>items = [x], returnData = [], fetchLog = []\<rparr>"
    let ?st' = "?st\<lparr>fetchLog := fetchLog ?st @ [itemRequest h p pc (Some 100)],
                    returnData := returnData ?st @ [?r]\<rparr>"
    from a t [of ?st] have 1: "tryBlock h 0 ?st = Inr ?st'" by simp
    have 2: "items ?st' = [x]" by simp
    from a have 3: "getInputData h 0 = Inr [x]" by simp
    from execute_single [OF 3 1 2] show "execute (Suc 0) h = Some (Inr [[?r]])" by simp
  qed
  have l: "?L = first_occurrences (concat (map (resolved_hrefs h) pages))"
    by (rule uniqueLinks_eq)
  have d: "distinct ?L" by (simp only: l distinct_first_occurrences)
  have s: "set ?L = {u. \<exists>pg\<in>set pages. \<exists>href\<in>set (hrefs pg).
                          href \<noteq> [] \<and> newURL h href (requestUrl pg) = Some u}"
    by (rule set_uniqueLinks)
  have x: "\<forall>pg a b. pages = [pg] \<and> hrefs pg = [''/x'', ''http://y.com'', ''/x'']
                \<and> newURL h ''/x'' (requestUrl pg) = Some a
                \<and> newURL h ''http://y.com'' (requestUrl pg) = Some b \<and> a \<noteq> b
              \<longrightarrow> ?L = [a, b]"
    by (auto simp: uniqueLinks_eq resolved_hrefs_def List.map_filter_simps)
  from t [of st] e l d s x show ?thesis by blast
qed

theorem extractLinks_unique_in_order_witness:
  "returnData (stateAfter (tryBlock (demoHost True) 4 \<lparr>items = demoItems, returnData = [], fetchLog = []\<rparr>)) =
     [\<lparr>json = ResultJson ''success'' ''Crawling finished'' ''http://ok.test/p''
               (Links [''http://ok.test/x'', ''http://y.com/'']),
       error = None, pairedItem = None\<rparr>]
   \<and> execute (Suc 0)
        ((demoHost True)\<lparr>getNodeParameters := \<lambda>i. Inr (demoParams 4),
                          getInputData := \<lambda>i. Inr [hd demoItems]\<rparr>) =
     Some (Inr [[\<lparr>json = ResultJson ''success'' ''Crawling finished'' ''http://ok.test/p''
                        (Links [''http://ok.test/x'', ''http://y.com/'']),
                  error = None, pairedItem = None\<rparr>]])"
proof -
  let ?h = "demoHost True"
  let ?h2 = "(demoHost True)\<lparr>getNodeParameters := \<lambda>i. Inr (demoParams 4),
                               getInputData := \<lambda>i. Inr [hd demoItems]\<rparr>"
  let ?p = "demoParams 4"
  let ?st = "\<lparr>items = demoItems, returnData = [], fetchLog = []\<rparr>"
  have p: "getNodeParameters ?h 4 = Inr ?p" by (simp add: demoHost_def)
  have p2: "getNodeParameters ?h2 0 = Inr ?p" by simp
  have o: "param_operation ?p = ''extractLinks''" by (simp add: demoParams_def)
  have u: "param_url ?p = ''http://ok.test/p''" by (simp add: demoParams_def)
  have pr: "itemProxy ?h ?p = Inr None" by code_simp
  have pr2: "itemProxy ?h2 ?p = Inr None" by code_simp
  have run: "runCrawler ?h (itemRequest ?h ?p None (Some 100)) = Inr [demoPage]" by code_simp
  have run2: "runCrawler ?h2 (itemRequest ?h2 ?p None (Some 100)) = Inr [demoPage]" by code_simp
  have ev: "first_occurrences (concat (map (resolved_hrefs ?h) [demoPage])) =
      [''http://ok.test/x'', ''http://y.com/'']" by code_simp
  have ev2: "first_occurrences (concat (map (resolved_hrefs ?h2) [demoPage])) =
      [''http://ok.test/x'', ''http://y.com/'']" by code_simp
  have g: "getInputData ?h2 0 = Inr [hd demoItems]" by simp
  from extractLinks_unique_in_order [OF p o pr run, of ?st "hd demoItems"] ev u
  have 1: "returnData (stateAfter (tryBlock ?h 4 ?st)) =
     [\<lparr>json = ResultJson ''success'' ''Crawling finished'' ''http://ok.test/p''
               (Links [''http://ok.test/x'', ''http://y.com/'']),
       error = None, pairedItem = None\<rparr>]"
    by (auto simp: stateAfter_def)
  from extractLinks_unique_in_order [OF p2 o pr2 run2, of ?st "hd demoItems"] ev2 u g
  have 2: "execute (Suc 0) ?h2 =
     Some (Inr [[\<lparr>json = ResultJson ''success'' ''Crawling finished'' ''http://ok.test/p''
                        (Links [''http://ok.test/x'', ''http://y.com/'']),
                  error = None, pairedItem = None\<rparr>]])"
    by auto
  from 1 2 show ?thesis by simp
qed

section \<open>The navigator patch\<close>






section \<open>Failures and skipped items\<close>

lemma resultRecord_error: "error (resultRecord m u pl) = None"
  by (simp add: resultRecord_def)

lemma textRecord_error: "error (textRecord b u pg) = None"
  by (simp add: textRecord_def resultRecord_error)

lemma htmlRecord_error: "error (htmlRecord b u pg) = None"
  by (simp add: htmlRecord_def resultRecord_error)

lemma tryBlock_proxy_throws:
  "getNodeParameters h i = Inr p \<Longrightarrow> itemProxy h p = Inl e \<Longrightarrow> tryBlock h i st = Inl (e, st)"
  by (simp add: tryBlock_def)

lemma tryBlock_other_operation:
  assumes "getNodeParameters h i = Inr p" and "itemProxy h p = Inr pc"
    and "param_operation p \<notin> {''extractLinks'', ''extractText'', ''extractHtml''}"
  shows "tryBlock h i st = Inr st"
  using assms by (simp add: tryBlock_def Let_def split del: if_split)

lemma tryBlock_shape:
  "\<exists>st' rs. (tryBlock h i st = Inr st' \<or> (\<exists>e. tryBlock h i st = Inl (e, st')))
      \<and> items st' = items st \<and> returnData st' = returnData st @ rs
      \<and> list_all (\<lambda>r. error r = None) rs"
proof (cases "getNodeParameters h i")
  case (Inl e)
  then have "tryBlock h i st = Inl (e, st)" by (simp add: tryBlock_def)
  then show ?thesis by (intro exI [of _ st] exI [of _ "[]"]) simp
next
  case (Inr p)
  show ?thesis
  proof (cases "itemProxy h p")
    case (Inl e)
    with Inr have "tryBlock h i st = Inl (e, st)" by (rule tryBlock_proxy_throws)
    then show ?thesis by (intro exI [of _ st] exI [of _ "[]"]) simp
  next
    case pc: (Inr pc)
    consider (opLinks) "param_operation p = ''extractLinks''"
      | (opText) "param_operation p \<noteq> ''extractLinks''" "param_operation p = ''extractText''"
      | (opHtml) "param_operation p \<noteq> ''extractLinks''" "param_operation p \<noteq> ''extractText''"
          "param_operation p = ''extractHtml''"
      | (opOther) "param_operation p \<notin> {''extractLinks'', ''extractText'', ''extractHtml''}"
      by blast
    then show ?thesis
    proof cases
      case opLinks
      then show ?thesis
        by (simp add: tryBlock_def Inr pc Let_def resultRecord_error split: sum.split split del: if_split)
    next
      case opText
      then show ?thesis
        by (simp add: tryBlock_def Inr pc Let_def list_all_iff textRecord_error
            split: sum.split split del: if_split)
    next
      case opHtml
      then show ?thesis
        by (simp add: tryBlock_def Inr pc Let_def list_all_iff htmlRecord_error
            split: sum.split split del: if_split)
    next
      case opOther
      with Inr pc have "tryBlock h i st = Inr st" by (rule tryBlock_other_operation)
      then show ?thesis by (intro exI [of _ st] exI [of _ "[]"]) simp
    qed
  qed
qed

lemma tryBlock_successOnly:
  assumes "successOnly st"
  shows "(tryBlock h i st = Inr st' \<longrightarrow> successOnly st')
       \<and> (tryBlock h i st = Inl (e, st') \<longrightarrow> successOnly st' \<and> items st' = items st)"
proof -
  from tryBlock_shape [of h i st] obtain st1 rs where
    r: "tryBlock h i st = Inr st1 \<or> (\<exists>e. tryBlock h i st = Inl (e, st1))"
    and s: "items st1 = items st" "returnData st1 = returnData st @ rs"
       "list_all (\<lambda>r. error r = None) rs"
    by blast
  from s assms have "successOnly st1" by (simp add: successOnly_def)
  with r s(1) show ?thesis by auto
qed

lemma tryBlock_items: "tryBlock h i st = Inr st' \<Longrightarrow> items st' = items st"
  using tryBlock_shape [of h i st] by auto

lemma catchBlock_continue:
  assumes "catchBlock h i e st = Inr st'"
  shows "continueOnFail h \<and> returnData st' = returnData st \<and> fetchLog st' = fetchLog st
       \<and> (\<exists>x. items st' = items st @ [x] \<and> error x = Some e \<and> pairedItem x = Some i)"
  using assms by (auto simp: catchBlock_def split: if_splits sum.splits list.splits)

lemma catchBlock_raise:
  "\<not> continueOnFail h \<Longrightarrow>
   catchBlock h i e st = Inl (attachItemIndex e i) \<and> error_itemIndex (attachItemIndex e i) = Some i"
  by (cases e) (simp_all add: catchBlock_def attachItemIndex_def error_itemIndex_def)

lemma execLoop_successOnly:
  "successOnly st \<Longrightarrow> execLoop fuel h i st = Some (Inr st') \<Longrightarrow> successOnly st'"
proof (induction fuel arbitrary: i st)
  case 0
  then show ?case
    by (cases "i < length (items st)") (simp_all add: execLoop_no_fuel execLoop_done)
next
  case (Suc fuel)
  show ?case
  proof (cases "i < length (items st)")
    case False
    with Suc.prems show ?thesis by (simp add: execLoop_done)
  next
    case True
    note step = execLoop_step [OF True, of fuel h]
    show ?thesis
    proof (cases "tryBlock h i st")
      case (Inr st1)
      with tryBlock_successOnly [OF Suc.prems(1), of h i st1] have "successOnly st1" by simp
      moreover from Suc.prems(2) step Inr have "execLoop fuel h (i + 1) st1 = Some (Inr st')" by simp
      ultimately show ?thesis by (rule Suc.IH)
    next
      case (Inl p)
      obtain e st1 where p: "p = (e, st1)" by (cases p)
      with Inl tryBlock_successOnly [OF Suc.prems(1), of h i st1 e] have s1: "successOnly st1" by simp
      show ?thesis
      proof (cases "catchBlock h i e st1")
        case l: (Inl e')
        with Suc.prems(2) step Inl p show ?thesis by simp
      next
        case r: (Inr st2)
        from catchBlock_continue [OF r] s1 have "successOnly st2" by (simp add: successOnly_def)
        moreover from Suc.prems(2) step Inl p r have "execLoop fuel h (i + 1) st2 = Some (Inr st')" by simp
        ultimately show ?thesis by (rule Suc.IH)
      qed
    qed
  qed
qed

lemma execute_returns_successes_only:
  assumes "execute fuel h = Some (Inr out)"
  shows "list_all (\<lambda>r. error r = None) (concat out)"
proof -
  from assms obtain inputItems st where
    "execLoop fuel h 0 \<lparr>items = inputItems, returnData = [], fetchLog = []\<rparr> = Some (Inr st)"
    and out: "out = [returnData st]"
    by (auto simp: execute_def split: sum.splits option.splits)
  moreover have "successOnly \<lparr>items = inputItems, returnData = [], fetchLog = []\<rparr>"
    by (simp add: successOnly_def)
  ultimately have "successOnly st" using execLoop_successOnly by blast
  with out show ?thesis by (simp add: successOnly_def)
qed




text \<open>
  Claim C3. With continue-on-failure the \<open>catch\<close> block pushes the failure record onto
  \<open>items\<close>, the list the loop runs over, and not onto \<open>returnData\<close>, and it reads the
  record's \<open>json\<close> from \<open>getInputData(itemIndex)[0]\<close>. On the two items of the small host
  the run of the crawler for item 1 throws, \<open>getInputData(1)\<close> is empty, and \<open>execute\<close>
  ends with a \<open>TypeError\<close>: no failure outcome is attached to item 1 and the record of
  item 0 is lost. Without continue-on-failure the error is raised with the item index, as
  claimed. Whatever the host, a run that returns hands back records without an \<open>error\<close>
  (\<open>execute_returns_successes_only\<close>).
\<close>

theorem continue_on_fail_drops_the_failure:
  "execute 5 (demoHost True) = Some (Inl TypeError)
   \<and> execute 5 (demoHost False) = Some (Inl (NodeOperationError (PlainError ''Invalid URL'') 1))"
  by code_simp

end
